theory Spec2Isabelle
  imports Complex_Main "HOL-Library.Multiset" "HOL-Library.Sublist"
begin

section \<open>The weighted evaluation table of the RFP buyer view\<close>

text \<open>
  This theory embeds the computational core of \<^verbatim>\<open>frontend/app/routes/$.tsx\<close>:
  the weighted overall score, the weight cell's handlers, the weight mutation of the
  criteria tree, the option lists and the filter of the table, and the reordering of
  the vendor columns.

  Conventions of the embedding.
  \<^item> The numbers of \<open>calculateOverallScore\<close> are IEEE 754 binary64 values, as the
    source computes them: a finite number is a sign and an exact rational magnitude on
    the binary64 grid, every operation rounds its exact result to the nearest such
    number (a tie to the even significand), and the signed zeros, the infinities and
    \<open>NaN\<close> are values of their own.
  \<^item> The weight cell is modelled over whole numbers: its numbers are of type
    \<^typ>\<open>int\<close>, \<open>NaN\<close> is \<open>None\<close>, and the quotient \<open>num / 5\<close> that it rounds is an
    exact \<^typ>\<open>rat\<close>; the rounding of binary64 is not modelled there.
  \<^item> A JavaScript string is a \<^typ>\<open>string\<close>; the value \<open>undefined\<close> read from an array
    out of range is \<open>None\<close>.
  \<^item> React state is passed explicitly: a handler takes the state it reads and returns
    the state it sets.
\<close>

subsection \<open>Data model\<close>

text \<open>
  \<^verbatim>\<open>type SubCriteria = { id; text; weight; scores }\<close> and
  \<^verbatim>\<open>type TableRow = { id; title; weight; scores; sub? }\<close>. The fields of a sub-criterion
  carry the prefix \<open>sub_\<close>, and \<open>id\<close> of a row is \<open>row_id\<close>, since both records live
  in one name space. An absent \<open>sub\<close> is \<open>None\<close>.
\<close>

record SubCriteria =
  sub_id :: string
  sub_text :: string
  sub_weight :: string
  sub_scores :: "string list"

record TableRow =
  row_id :: string
  title :: string
  weight :: string
  scores :: "string list"
  sub :: "SubCriteria list option"

text \<open>Reading \<open>xs[i]\<close>: \<open>undefined\<close> outside the array.\<close>

definition js_get :: "'a list \<Rightarrow> nat \<Rightarrow> 'a option" where
  "js_get xs i = (if i < length xs then Some (xs ! i) else None)"

subsection \<open>Numbers: binary64\<close>

text \<open>
  A JavaScript number is a finite binary64 value, an infinity or \<open>NaN\<close>. \<open>Num s m\<close> is
  the finite number of sign \<open>s\<close> (\<open>True\<close> is minus) and magnitude \<open>m \<ge> 0\<close>, so that
  \<open>Num False 0\<close> is \<open>+0\<close> and \<open>Num True 0\<close> is \<open>-0\<close>; \<open>Infinity s\<close> is the infinity of
  sign \<open>s\<close>. The magnitude is kept as an exact rational; the operations below only ever
  produce magnitudes that binary64 represents.
\<close>

datatype number = Num bool rat | Infinity bool | NaN

text \<open>The real value of a finite number; both zeros have the value 0.\<close>

definition numval :: "number \<Rightarrow> rat" where
  "numval x = (case x of Num s m \<Rightarrow> if s then - m else m | _ \<Rightarrow> 0)"

text \<open>The number of binary digits of a positive integer.\<close>

function bitLength :: "int \<Rightarrow> int" where
  "bitLength n = (if n \<le> 0 then 0 else 1 + bitLength (n div 2))"
  by pat_completeness auto
termination
  by (relation "measure nat") auto

text \<open>
  The binary exponent of a positive rational \<open>m\<close>: the integer \<open>e\<close> with
  \<open>2 ^ e \<le> m < 2 ^ (e + 1)\<close>. The difference of the bit lengths of numerator and
  denominator is \<open>e\<close> or \<open>e + 1\<close>.
\<close>

definition ilog2 :: "rat \<Rightarrow> int" where
  "ilog2 m =
     (let (p, q) = quotient_of m;
          d = bitLength p - bitLength q
      in if 2 powi d \<le> m then d else d - 1)"

text \<open>The nearest integer, a tie going to the even one.\<close>

definition roundHalfEven :: "rat \<Rightarrow> int" where
  "roundHalfEven n =
     (let f = \<lfloor>n\<rfloor>; d = n - of_int f
      in if d < 1 / 2 then f else if 1 / 2 < d then f + 1 else if even f then f else f + 1)"

text \<open>
  Rounding of an exact magnitude \<open>m \<ge> 0\<close> to binary64, in the mode
  \<open>roundTiesToEven\<close> that ECMAScript prescribes for every arithmetic operation. The
  significand has 53 bits and the exponent \<open>e\<close> is at least \<open>-1022\<close>, so the
  representable numbers around \<open>m\<close> are the multiples of \<open>q = 2 ^ (e - 52)\<close>; below
  \<open>2 ^ (-1022)\<close> the spacing stays \<open>2 ^ (-1074)\<close> (subnormal numbers, and underflow to
  a zero of the same sign). The result is \<open>r * q\<close> for the rounded significand \<open>r\<close>. It
  overflows to the infinity when it reaches \<open>2 ^ 1024\<close>, that is when \<open>e \<ge> 1024\<close>, or
  \<open>e = 1023\<close> and the significand rounds up to \<open>2 ^ 53\<close> (lemma
  \<open>roundToDouble_overflow\<close>).
\<close>

definition roundToDouble :: "bool \<Rightarrow> rat \<Rightarrow> number" where
  "roundToDouble s m =
     (if m = 0 then Num s 0
      else (let e = max (ilog2 m) (- 1022);
                q = 2 powi (e - 52);
                r = roundHalfEven (m / q)
            in if 1024 \<le> e \<or> (e = 1023 \<and> r = 2 ^ 53) then Infinity s
               else Num s (of_int r * q)))"

text \<open>
  \<^verbatim>\<open>x + y\<close> (ECMAScript, Number::add): \<open>NaN\<close> is contagious, infinities of opposite
  sign give \<open>NaN\<close>, and the exact sum of two finite numbers is rounded. An exact sum of
  zero is \<open>+0\<close>, unless both operands are \<open>-0\<close>.
\<close>

fun js_add :: "number \<Rightarrow> number \<Rightarrow> number" where
  "js_add NaN _ = NaN"
| "js_add _ NaN = NaN"
| "js_add (Infinity s1) (Infinity s2) = (if s1 = s2 then Infinity s1 else NaN)"
| "js_add (Infinity s1) (Num _ _) = Infinity s1"
| "js_add (Num _ _) (Infinity s2) = Infinity s2"
| "js_add (Num s1 m1) (Num s2 m2) =
     (let v = numval (Num s1 m1) + numval (Num s2 m2)
      in if v = 0 then Num (s1 \<and> s2) 0 else roundToDouble (v < 0) \<bar>v\<bar>)"

text \<open>
  \<^verbatim>\<open>x * y\<close> (Number::multiply): the sign is the exclusive or of the signs, zero times
  an infinity is \<open>NaN\<close>, and the exact product of two finite numbers is rounded.
\<close>

fun js_mul :: "number \<Rightarrow> number \<Rightarrow> number" where
  "js_mul NaN _ = NaN"
| "js_mul _ NaN = NaN"
| "js_mul (Infinity s1) (Infinity s2) = Infinity (s1 \<noteq> s2)"
| "js_mul (Infinity s1) (Num s2 m2) = (if m2 = 0 then NaN else Infinity (s1 \<noteq> s2))"
| "js_mul (Num s1 m1) (Infinity s2) = (if m1 = 0 then NaN else Infinity (s1 \<noteq> s2))"
| "js_mul (Num s1 m1) (Num s2 m2) = roundToDouble (s1 \<noteq> s2) (m1 * m2)"

text \<open>
  \<^verbatim>\<open>x / y\<close> (Number::divide): a division by zero is no error; \<open>0 / 0\<close> and the
  quotient of two infinities are \<open>NaN\<close>, any other number divided by a zero is an
  infinity, and the exact quotient of two finite numbers is rounded.
\<close>

fun js_div :: "number \<Rightarrow> number \<Rightarrow> number" where
  "js_div NaN _ = NaN"
| "js_div _ NaN = NaN"
| "js_div (Infinity s1) (Infinity s2) = NaN"
| "js_div (Infinity s1) (Num s2 m2) = Infinity (s1 \<noteq> s2)"
| "js_div (Num s1 m1) (Infinity s2) = Num (s1 \<noteq> s2) 0"
| "js_div (Num s1 m1) (Num s2 m2) =
     (if m2 = 0 then (if m1 = 0 then NaN else Infinity (s1 \<noteq> s2))
      else roundToDouble (s1 \<noteq> s2) (m1 / m2))"

text \<open>
  \<^verbatim>\<open>x === y\<close> on numbers (Number::equal): \<open>NaN\<close> equals nothing, \<open>+0\<close> equals \<open>-0\<close>.
\<close>

fun js_strictEq :: "number \<Rightarrow> number \<Rightarrow> bool" where
  "js_strictEq (Num s1 m1) (Num s2 m2) = (numval (Num s1 m1) = numval (Num s2 m2))"
| "js_strictEq (Infinity s1) (Infinity s2) = (s1 = s2)"
| "js_strictEq _ _ = False"

text \<open>
  \<^verbatim>\<open>Math.round(x)\<close> on a number: \<open>NaN\<close> and the infinities are returned as they are;
  a finite \<open>x\<close> gives the integer \<open>floor(x + 1/2)\<close>, computed exactly (the nearest
  integer, a tie going up), which is \<open>-0\<close> for \<open>x\<close> equal to \<open>-0\<close> or in
  \<open>[-1/2, 0)\<close>.
\<close>

fun js_round :: "number \<Rightarrow> number" where
  "js_round (Num s m) =
     (let k = \<lfloor>numval (Num s m) + 1 / 2\<rfloor>
      in if k = 0 then Num s 0 else Num (k < 0) (of_int \<bar>k\<bar>))"
| "js_round x = x"

text \<open>The number a natural number literal denotes, exact below \<open>2 ^ 53\<close>.\<close>

definition natNumber :: "nat \<Rightarrow> number" where
  "natNumber n = Num False (of_nat n)"

text \<open>
  A value of the model is a number of binary64 when its magnitude is not negative and
  rounding leaves it unchanged.
\<close>

definition isDouble :: "number \<Rightarrow> bool" where
  "isDouble x = (case x of Num s m \<Rightarrow> 0 \<le> m \<and> roundToDouble s m = Num s m | _ \<Rightarrow> True)"

text \<open>A finite number that is not below zero: \<open>+0\<close>, \<open>-0\<close> or a positive number.\<close>

definition finiteNonNegative :: "number \<Rightarrow> bool" where
  "finiteNonNegative x = (case x of Num s m \<Rightarrow> 0 \<le> m \<and> (s \<longrightarrow> m = 0) | _ \<Rightarrow> False)"

subsection \<open>Aggregation: \<open>calculateOverallScore\<close>\<close>

text \<open>
  \<^verbatim>\<open>
  function calculateOverallScore(sectionScores: number[], weights: number[]): number {
    const totalWeight = weights.reduce((sum, w) => sum + w, 0);
    if (totalWeight === 0) return 0;
    const raw = sectionScores.map((score, i) => score * weights[i])
                             .reduce((sum, x) => sum + x, 0) / totalWeight;
    return Math.round(raw * 10) / 10;
  }\<close>
  Both \<open>reduce\<close> calls add from the left, starting at \<open>+0\<close>, and every \<open>+\<close>, \<open>*\<close> and
  \<open>/\<close> rounds. A score without a weight is multiplied by \<open>undefined\<close>, which gives
  \<open>NaN\<close>.
\<close>

definition calculateOverallScore :: "number list \<Rightarrow> number list \<Rightarrow> number" where
  "calculateOverallScore sectionScores weights =
     (let totalWeight = foldl (\<lambda>sum w. js_add sum w) (Num False 0) weights in
      if js_strictEq totalWeight (Num False 0) then Num False 0
      else (let raw = js_div
                  (foldl (\<lambda>sum x. js_add sum x) (Num False 0)
                     (map (\<lambda>(i, score). case js_get weights i of None \<Rightarrow> NaN | Some w \<Rightarrow> js_mul score w)
                          (enumerate 0 sectionScores)))
                  totalWeight
            in js_div (js_round (js_mul raw (Num False 10))) (Num False 10)))"

text \<open>
  The weighted mean as the specification writes it, over exact rationals: the sum of
  \<open>score[i] * weight[i]\<close> divided by the total weight.
\<close>

definition weighted_mean :: "rat list \<Rightarrow> rat list \<Rightarrow> rat" where
  "weighted_mean sectionScores weights =
     (\<Sum>i<length sectionScores. sectionScores ! i * weights ! i) / (\<Sum>i<length weights. weights ! i)"

text \<open>
  \<^verbatim>\<open>Math.round\<close> of an exact rational, as the weight cell and the specification's
  rounding use it: the nearest integer, a tie going up.
\<close>

definition Math_round :: "rat \<Rightarrow> int" where
  "Math_round x = \<lfloor>x + 1 / 2\<rfloor>"

subsection \<open>Strings and numbers of the weight cell\<close>

text \<open>\<^verbatim>\<open>String(n)\<close> of an integer: its decimal digits, with a minus sign below zero.\<close>

definition digit_char :: "nat \<Rightarrow> char" where
  "digit_char d = ''0123456789'' ! d"

fun show_nat :: "nat \<Rightarrow> string" where
  "show_nat n = (if n < 10 then [digit_char n] else show_nat (n div 10) @ [digit_char (n mod 10)])"

definition show_int :: "int \<Rightarrow> string" where
  "show_int i = (if i < 0 then CHR ''-'' # show_nat (nat (- i)) else show_nat (nat i))"

text \<open>
  \<^verbatim>\<open>parseInt(s)\<close> without a radix, after ECMAScript: leading white space is dropped, a
  sign is read, a prefix \<open>0x\<close> or \<open>0X\<close> selects radix 16, and the longest run of digits
  of the radix is the value; without a digit the result is \<open>NaN\<close>. White space is the
  ASCII white space; the value of a digit is its position among the digits and letters.
\<close>

definition isWhiteSpace :: "char \<Rightarrow> bool" where
  "isWhiteSpace c = (c \<in> set [CHR '' '', CHR 0x09, CHR 0x0A, CHR 0x0B, CHR 0x0C, CHR 0x0D])"

primrec indexOf :: "char \<Rightarrow> string \<Rightarrow> nat option" where
  "indexOf c [] = None"
| "indexOf c (x # xs) = (if c = x then Some 0 else map_option Suc (indexOf c xs))"

definition digitValue :: "char \<Rightarrow> nat option" where
  "digitValue c =
     (case indexOf c ''0123456789abcdefghijklmnopqrstuvwxyz'' of
        Some d \<Rightarrow> Some d
      | None \<Rightarrow> map_option (\<lambda>i. i + 10) (indexOf c ''ABCDEFGHIJKLMNOPQRSTUVWXYZ''))"

definition radixDigit :: "nat \<Rightarrow> char \<Rightarrow> nat option" where
  "radixDigit R c = (case digitValue c of None \<Rightarrow> None | Some d \<Rightarrow> if d < R then Some d else None)"

definition parseInt :: "string \<Rightarrow> int option" where
  "parseInt inputString =
     (let S = dropWhile isWhiteSpace inputString;
          sign = (if S \<noteq> [] \<and> hd S = CHR ''-'' then - 1 else (1 :: int));
          S1 = (if S \<noteq> [] \<and> (hd S = CHR ''+'' \<or> hd S = CHR ''-'') then tl S else S);
          hex = (take 2 S1 = ''0x'' \<or> take 2 S1 = ''0X'');
          R = (if hex then 16 else (10 :: nat));
          S2 = (if hex then drop 2 S1 else S1);
          Z = takeWhile (\<lambda>c. radixDigit R c \<noteq> None) S2
      in if Z = [] then None
         else Some (sign * int (foldl (\<lambda>acc c. acc * R + (case radixDigit R c of None \<Rightarrow> 0 | Some d \<Rightarrow> d)) 0 Z)))"

subsection \<open>Criteria tree store: \<open>handleWeightChange\<close>\<close>

text \<open>
  \<^verbatim>\<open>
  const handleWeightChange = (rowId, value) =>
    setData(prevData => prevData.map(row => {
      if (row.id === rowId) return { ...row, weight: value };
      else if (row.sub) return { ...row, sub: row.sub.map(subRow =>
          subRow.id === rowId ? { ...subRow, weight: value } : subRow) };
      return row;
    }));\<close>
\<close>

definition handleWeightChange :: "TableRow list \<Rightarrow> string \<Rightarrow> string \<Rightarrow> TableRow list" where
  "handleWeightChange prevData rowId val =
     map (\<lambda>row.
            if row_id row = rowId then row\<lparr>weight := val\<rparr>
            else (case sub row of
                    Some subs \<Rightarrow>
                      row\<lparr>sub := Some (map (\<lambda>subRow. if sub_id subRow = rowId
                                                     then subRow\<lparr>sub_weight := val\<rparr> else subRow) subs)\<rparr>
                  | None \<Rightarrow> row))
         prevData"

text \<open>The ids of all nodes of the tree: every row, followed by its sub-criteria.\<close>

definition nodeIds :: "TableRow list \<Rightarrow> string list" where
  "nodeIds data =
     concat (map (\<lambda>row. row_id row # (case sub row of None \<Rightarrow> [] | Some subs \<Rightarrow> map sub_id subs)) data)"

text \<open>
  Two sections in the shape of \<open>initialTableData\<close>, each with a weight, five vendor
  scores and sub-criteria; the second has an empty score for the first vendor.
\<close>

definition exampleSection :: TableRow where
  "exampleSection =
     \<lparr>row_id = ''5.1'', title = ''Experience and Capabilities'', weight = ''20%'',
      scores = [''80%'', ''60%'', ''75%'', ''90%'', ''65%''],
      sub = Some [\<lparr>sub_id = ''5.1.1'', sub_text = ''5.1.1. Comparable settings'', sub_weight = '''',
                   sub_scores = [''70%'', ''60%'', ''85%'', ''95%'', ''100%'']\<rparr>,
                  \<lparr>sub_id = ''5.1.2'', sub_text = ''5.1.2. Regional experience'', sub_weight = '''',
                   sub_scores = [''80%'', ''61%'', ''72%'', ''88%'', ''93%'']\<rparr>]\<rparr>"

definition exampleSection2 :: TableRow where
  "exampleSection2 =
     \<lparr>row_id = ''5.2'', title = ''Service Approach and Methodology'', weight = ''20%'',
      scores = ['''', ''60%'', ''99%'', ''64%'', ''71%''],
      sub = Some [\<lparr>sub_id = ''5.2.1'', sub_text = ''5.2.1. Completeness and clarity'', sub_weight = '''',
                   sub_scores = [''66%'', '''', ''85%'', ''95%'', ''100%'']\<rparr>]\<rparr>"

definition exampleData :: "TableRow list" where
  "exampleData = [exampleSection, exampleSection2]"

text \<open>
  The handlers of the weight cell. Each takes the table data, the id of the cell's row
  and the cell's \<open>inputValue\<close>, and returns the new data and the new \<open>inputValue\<close>.

  \<^verbatim>\<open>
  const handleInputBlur = () => {
    let num = parseInt(inputValue);
    if (isNaN(num)) { handleWeightChange(row.original.id, ''); setInputValue(''); }
    else { num = Math.max(0, Math.min(100, Math.round(num / 5) * 5));
           handleWeightChange(row.original.id, num + '%'); }
  };\<close>
\<close>

definition handleInputBlur :: "TableRow list \<Rightarrow> string \<Rightarrow> string \<Rightarrow> TableRow list \<times> string" where
  "handleInputBlur data rowId inputValue =
     (case parseInt inputValue of
        None \<Rightarrow> (handleWeightChange data rowId '''', '''')
      | Some num \<Rightarrow>
          (let num' = max 0 (min 100 (Math_round (of_int num / 5) * 5))
           in (handleWeightChange data rowId (show_int num' @ ''%''), inputValue)))"

text \<open>
  The two buttons of the cell:
  \<^verbatim>\<open>
  let current = parseInt(inputValue || '0') || 0;
  let next = Math.max(0, current - 5);        // the minus button
  let next = Math.min(100, current + 5);      // the plus button
  handleWeightChange(row.original.id, next + '%');
  setInputValue(String(next));\<close>
\<close>

definition currentValue :: "string \<Rightarrow> int" where
  "currentValue inputValue =
     (case parseInt (if inputValue = '''' then ''0'' else inputValue) of
        None \<Rightarrow> 0 | Some n \<Rightarrow> n)"

definition handleMinusClick :: "TableRow list \<Rightarrow> string \<Rightarrow> string \<Rightarrow> TableRow list \<times> string" where
  "handleMinusClick data rowId inputValue =
     (let current = currentValue inputValue;
          next = max 0 (current - 5)
      in (handleWeightChange data rowId (show_int next @ ''%''), show_int next))"

definition handlePlusClick :: "TableRow list \<Rightarrow> string \<Rightarrow> string \<Rightarrow> TableRow list \<times> string" where
  "handlePlusClick data rowId inputValue =
     (let current = currentValue inputValue;
          next = min 100 (current + 5)
      in (handleWeightChange data rowId (show_int next @ ''%''), show_int next))"

text \<open>
  Typing into the cell, and the effect that follows the stored weight of the row:
  \<^verbatim>\<open>
  const handleInputChange = (e) => {
    const val = e.target.value;
    if (val === '' || /^\d{0,3}$/.test(val)) setInputValue(val);
  };
  React.useEffect(() => {
    const val = parseInt(getValue() || '');
    setInputValue(isNaN(val) ? '' : String(val));
  }, [getValue()]);\<close>
  The effect runs after a render in which the stored weight differs from the one of the
  render before.
\<close>

definition isDigit :: "char \<Rightarrow> bool" where
  "isDigit c = (c \<in> set ''0123456789'')"

definition handleInputChange :: "string \<Rightarrow> string \<Rightarrow> string" where
  "handleInputChange val inputValue =
     (if val = '''' \<or> (length val \<le> 3 \<and> list_all isDigit val) then val else inputValue)"

definition weightEffect :: "string \<Rightarrow> string \<Rightarrow> string \<Rightarrow> string" where
  "weightEffect prevWeight newWeight inputValue =
     (if newWeight = prevWeight then inputValue
      else (case parseInt newWeight of None \<Rightarrow> '''' | Some v \<Rightarrow> show_int v))"

text \<open>
  A normalised weight: empty, or \<open>n%\<close> for a multiple \<open>n\<close> of five from 0 to 100.
\<close>

definition normalisedWeight :: "string \<Rightarrow> bool" where
  "normalisedWeight w =
     (w = '''' \<or> (\<exists>n \<in> set [0 ..< 21]. w = show_int (5 * int n) @ ''%''))"

subsection \<open>Filter engine: options and \<open>filteredData\<close>\<close>

text \<open>
  A truthy string of JavaScript is a defined, non-empty one; \<open>nonEmpty\<close> keeps it and
  answers \<open>None\<close> for \<open>undefined\<close> and for the empty string.
\<close>

definition nonEmpty :: "string option \<Rightarrow> string option" where
  "nonEmpty v = (case v of None \<Rightarrow> None | Some s \<Rightarrow> if s = [] then None else Some s)"

text \<open>
  \<^verbatim>\<open>Array.from(new Set(xs))\<close>: the elements of \<open>xs\<close> in the order of their first
  occurrence.
\<close>

definition Array_from_Set :: "'a list \<Rightarrow> 'a list" where
  "Array_from_Set xs = foldl (\<lambda>acc x. if x \<in> set acc then acc else acc @ [x]) [] xs"

record VendorOption =
  opt_label :: string
  opt_value :: string

text \<open>
  \<^verbatim>\<open>
  function getVendorOptions(idx) {
    const values = Array.from(new Set(data.flatMap(row => {
      if (row.scores[idx]) return [row.scores[idx]];
      if (row.sub) return row.sub.map(sub => sub.scores[idx]).filter(Boolean);
      return [];
    })));
    return values.map(v => ({ label: v, value: v }));
  }\<close>
  \<open>rowOptionValues\<close> is the callback of \<open>flatMap\<close>: what one row contributes.
\<close>

definition rowOptionValues :: "nat \<Rightarrow> TableRow \<Rightarrow> string list" where
  "rowOptionValues idx row =
     (case nonEmpty (js_get (scores row) idx) of
        Some s \<Rightarrow> [s]
      | None \<Rightarrow>
          (case sub row of
             Some subs \<Rightarrow> List.map_filter (\<lambda>sb. nonEmpty (js_get (sub_scores sb) idx)) subs
           | None \<Rightarrow> []))"

definition getVendorOptions :: "TableRow list \<Rightarrow> nat \<Rightarrow> VendorOption list" where
  "getVendorOptions data idx =
     (let vals = Array_from_Set (concat (map (rowOptionValues idx) data))
      in map (\<lambda>v. \<lparr>opt_label = v, opt_value = v\<rparr>) vals)"

text \<open>
  The option values as the specification words them: the vendor's non-empty score at
  every top-level node that has one, and the vendor's non-empty score at every child of
  every node that has children.
\<close>

definition specOptionValues :: "TableRow list \<Rightarrow> nat \<Rightarrow> string set" where
  "specOptionValues data idx =
     {s. s \<noteq> [] \<and> (\<exists>row \<in> set data. js_get (scores row) idx = Some s)} \<union>
     {s. s \<noteq> [] \<and> (\<exists>row \<in> set data. \<exists>subs. sub row = Some subs \<and>
                        (\<exists>sb \<in> set subs. js_get (sub_scores sb) idx = Some s))}"

text \<open>
  The columns of the filter: an id, an accessor, a type and, for a vendor column, its
  options (\<open>displayName\<close> and \<open>icon\<close> are presentation only).
\<close>

record ColumnConfig =
  col_id :: string
  accessor :: "TableRow \<Rightarrow> string option"
  col_type :: string
  col_options :: "VendorOption list option"

definition vendorColumnIds :: "string list" where
  "vendorColumnIds = [''LangeTech'', ''Best Pacific'', ''KMNM'', ''Bhilosa'', ''Tianhai Lace'']"

definition pinnedColumnIds :: "string list" where
  "pinnedColumnIds = [''title'', ''weight'']"

definition allColumnIds :: "string list" where
  "allColumnIds = pinnedColumnIds @ vendorColumnIds"

definition columnsConfig :: "TableRow list \<Rightarrow> ColumnConfig list" where
  "columnsConfig data =
     [\<lparr>col_id = ''title'', accessor = (\<lambda>row. Some (title row)), col_type = ''text'', col_options = None\<rparr>,
      \<lparr>col_id = ''weight'', accessor = (\<lambda>row. Some (weight row)), col_type = ''text'', col_options = None\<rparr>,
      \<lparr>col_id = ''LangeTech'', accessor = (\<lambda>row. js_get (scores row) 0), col_type = ''option'',
        col_options = Some (getVendorOptions data 0)\<rparr>,
      \<lparr>col_id = ''Best Pacific'', accessor = (\<lambda>row. js_get (scores row) 1), col_type = ''option'',
        col_options = Some (getVendorOptions data 1)\<rparr>,
      \<lparr>col_id = ''KMNM'', accessor = (\<lambda>row. js_get (scores row) 2), col_type = ''option'',
        col_options = Some (getVendorOptions data 2)\<rparr>,
      \<lparr>col_id = ''Bhilosa'', accessor = (\<lambda>row. js_get (scores row) 3), col_type = ''option'',
        col_options = Some (getVendorOptions data 3)\<rparr>,
      \<lparr>col_id = ''Tianhai Lace'', accessor = (\<lambda>row. js_get (scores row) 4), col_type = ''option'',
        col_options = Some (getVendorOptions data 4)\<rparr>]"

text \<open>
  A filter of the filter hook: \<^verbatim>\<open>{ columnId, type, values }\<close>. The type is the string
  the source compares with \<^verbatim>\<open>'text'\<close>.
\<close>

record FilterPredicate =
  columnId :: string
  filter_type :: string
  filter_values :: "string list"

text \<open>\<^verbatim>\<open>String(v)\<close> of a string or \<open>undefined\<close>.\<close>

definition String_of :: "string option \<Rightarrow> string" where
  "String_of v = (case v of None \<Rightarrow> ''undefined'' | Some s \<Rightarrow> s)"

text \<open>\<^verbatim>\<open>toLowerCase\<close>, on the ASCII letters.\<close>

definition lowerChar :: "char \<Rightarrow> char" where
  "lowerChar c =
     (case map_of (zip ''ABCDEFGHIJKLMNOPQRSTUVWXYZ'' ''abcdefghijklmnopqrstuvwxyz'') c of
        Some l \<Rightarrow> l
      | None \<Rightarrow> c)"

definition toLowerCase :: "string \<Rightarrow> string" where
  "toLowerCase s = map lowerChar s"

text \<open>\<^verbatim>\<open>s.includes(t)\<close>: \<open>t\<close> occurs in \<open>s\<close> as a contiguous piece.\<close>

fun includes_str :: "string \<Rightarrow> string \<Rightarrow> bool" where
  "includes_str [] t = (t = [])"
| "includes_str (c # cs) t = (prefix t (c # cs) \<or> includes_str cs t)"

text \<open>
  \<^verbatim>\<open>
  const filteredData = data.filter((row) => filters.every((filter) => {
    const col = columnsConfig.find((c) => c.id === filter.columnId);
    if (!col) return true;
    const value = col.accessor(row);
    if (filter.type === 'text')
      return filter.values.length === 0 ||
             filter.values.some((v) => String(value).toLowerCase().includes(String(v).toLowerCase()));
    return true;
  }));\<close>
\<close>

definition filterMatches :: "TableRow list \<Rightarrow> TableRow \<Rightarrow> FilterPredicate \<Rightarrow> bool" where
  "filterMatches data row flt =
     (case find (\<lambda>c. col_id c = columnId flt) (columnsConfig data) of
        None \<Rightarrow> True
      | Some col \<Rightarrow>
          (let val = accessor col row in
           if filter_type flt = ''text''
           then filter_values flt = [] \<or>
                list_ex (\<lambda>v. includes_str (toLowerCase (String_of val)) (toLowerCase v)) (filter_values flt)
           else True))"

definition filteredData :: "TableRow list \<Rightarrow> FilterPredicate list \<Rightarrow> TableRow list" where
  "filteredData data filters = filter (\<lambda>row. list_all (filterMatches data row) filters) data"

text \<open>
  The reading of a predicate in the specification. A value \<open>v\<close> is a case-insensitive
  substring of a field \<open>s\<close> when the lower-cased \<open>v\<close> is a contiguous piece of the
  lower-cased \<open>s\<close>. A text predicate is satisfied when its value list is empty or one
  of its values is such a substring of the field read through the accessor of its
  column; a predicate of another type, or on no column, is satisfied.
\<close>

definition caseInsensitiveSubstring :: "string \<Rightarrow> string \<Rightarrow> bool" where
  "caseInsensitiveSubstring v s = sublist (toLowerCase v) (toLowerCase s)"

definition columnAccessor :: "string \<Rightarrow> (TableRow \<Rightarrow> string option) option" where
  "columnAccessor cid =
     (if cid = ''title'' then Some (\<lambda>row. Some (title row))
      else if cid = ''weight'' then Some (\<lambda>row. Some (weight row))
      else if cid = ''LangeTech'' then Some (\<lambda>row. js_get (scores row) 0)
      else if cid = ''Best Pacific'' then Some (\<lambda>row. js_get (scores row) 1)
      else if cid = ''KMNM'' then Some (\<lambda>row. js_get (scores row) 2)
      else if cid = ''Bhilosa'' then Some (\<lambda>row. js_get (scores row) 3)
      else if cid = ''Tianhai Lace'' then Some (\<lambda>row. js_get (scores row) 4)
      else None)"

definition satisfies :: "TableRow \<Rightarrow> FilterPredicate \<Rightarrow> bool" where
  "satisfies row flt =
     (case columnAccessor (columnId flt) of
        None \<Rightarrow> True
      | Some acc \<Rightarrow>
          filter_type flt \<noteq> ''text'' \<or> filter_values flt = [] \<or>
          list_ex (\<lambda>v. caseInsensitiveSubstring v (String_of (acc row))) (filter_values flt))"

text \<open>Two filters for the example rows: a text filter on the title, an option filter on a vendor.\<close>

definition exampleTextFilter :: FilterPredicate where
  "exampleTextFilter = \<lparr>columnId = ''title'', filter_type = ''text'', filter_values = [''zzz'', ''SERVICE'']\<rparr>"

definition exampleOptionFilter :: FilterPredicate where
  "exampleOptionFilter = \<lparr>columnId = ''LangeTech'', filter_type = ''option'', filter_values = [''99%'']\<rparr>"

subsection \<open>Column order controller: \<open>moveColumn\<close>\<close>

text \<open>
  A column order is an array of column ids; an entry may be \<open>undefined\<close> (\<open>None\<close>),
  which is what \<open>moveColumn\<close> stores when it reads outside the vendor columns.
\<close>

type_synonym colid = "string option"

text \<open>\<open>xs[i]\<close> for a number \<open>i\<close> that may be negative.\<close>

definition js_at :: "colid list \<Rightarrow> int \<Rightarrow> colid" where
  "js_at xs i = (if 0 \<le> i \<and> i < int (length xs) then xs ! nat i else None)"

text \<open>
  \<^verbatim>\<open>xs.splice(start, deleteCount, ...items)\<close>, the array after the call: a negative
  start counts from the end, a start beyond the end is the end, and no more elements
  are deleted than follow the start.
\<close>

definition splice :: "'a list \<Rightarrow> int \<Rightarrow> nat \<Rightarrow> 'a list \<Rightarrow> 'a list" where
  "splice xs start deleteCount items =
     (let len = length xs;
          actualStart = (if start < 0 then nat (max (int len + start) 0) else min (nat start) len);
          actualDeleteCount = min deleteCount (len - actualStart)
      in take actualStart xs @ items @ drop (actualStart + actualDeleteCount) xs)"

text \<open>
  \<^verbatim>\<open>
  const moveColumn = (dragIndex, hoverIndex) => {
    const pinned = columnOrder.slice(0, pinnedColumnIds.length);
    const vendors = columnOrder.slice(pinnedColumnIds.length);
    const dragCol = vendors[dragIndex - pinnedColumnIds.length];
    vendors.splice(dragIndex - pinnedColumnIds.length, 1);
    vendors.splice(hoverIndex - pinnedColumnIds.length, 0, dragCol);
    setColumnOrder([...pinned, ...vendors]);
  };\<close>
\<close>

definition moveColumn :: "colid list \<Rightarrow> int \<Rightarrow> int \<Rightarrow> colid list" where
  "moveColumn columnOrder dragIndex hoverIndex =
     (let pinned = take (length pinnedColumnIds) columnOrder;
          vendors = drop (length pinnedColumnIds) columnOrder;
          dragCol = js_at vendors (dragIndex - int (length pinnedColumnIds));
          vendors1 = splice vendors (dragIndex - int (length pinnedColumnIds)) 1 [];
          vendors2 = splice vendors1 (hoverIndex - int (length pinnedColumnIds)) 0 [dragCol]
      in pinned @ vendors2)"

text \<open>The initial state \<^verbatim>\<open>React.useState(allColumnIds)\<close> of the column order.\<close>

definition initialColumnOrder :: "colid list" where
  "initialColumnOrder = map Some allColumnIds"

text \<open>Removing the element at a position, and inserting an element at a position.\<close>

definition removeAt :: "nat \<Rightarrow> 'a list \<Rightarrow> 'a list" where
  "removeAt i xs = take i xs @ drop (Suc i) xs"

definition insertAt :: "nat \<Rightarrow> 'a \<Rightarrow> 'a list \<Rightarrow> 'a list" where
  "insertAt i x xs = take i xs @ [x] @ drop i xs"

text \<open>
  The header cell \<open>DraggableTh\<close> of a column with id \<open>id\<close> at position \<open>index\<close>. A
  drag carries the item \<^verbatim>\<open>{ id, index }\<close> of the header it started from and starts only
  where \<open>canDrag\<close> holds.
  \<^verbatim>\<open>
  const isDraggable = vendorColumnIds.includes(id);
  useDrag({ type: 'COLUMN', item: { id, index }, canDrag: isDraggable, ... });
  useDrop({ accept: 'COLUMN', canDrop: (item) => isDraggable,
    hover: (item) => {
      if (!isDraggable || item.index === index) return;
      moveColumn(item.index, index);
      item.index = index;
    } });\<close>
\<close>

record DragItem =
  item_id :: string
  item_index :: int

definition isDraggable :: "string \<Rightarrow> bool" where
  "isDraggable cid = (cid \<in> set vendorColumnIds)"

definition beginDrag :: "string \<Rightarrow> int \<Rightarrow> DragItem option" where
  "beginDrag cid index = (if isDraggable cid then Some \<lparr>item_id = cid, item_index = index\<rparr> else None)"

definition hover :: "string \<Rightarrow> int \<Rightarrow> colid list \<times> DragItem \<Rightarrow> colid list \<times> DragItem" where
  "hover cid index st =
     (let columnOrder = fst st; item = snd st in
      if \<not> isDraggable cid \<or> item_index item = index then st
      else (moveColumn columnOrder (item_index item) index, item\<lparr>item_index := index\<rparr>))"

section \<open>Properties\<close>

subsection \<open>Rounding to binary64\<close>

text \<open>
  Facts about \<open>roundToDouble\<close>: the exponent is the right one, rounding moves a value of
  the normal range by at most the fraction \<open>2 ^ (-53)\<close> of it, whole numbers up to
  \<open>2 ^ 53\<close> are left as they are, and overflow happens exactly from \<open>2 ^ 1024\<close> on.
\<close>

declare bitLength.simps [simp del]

lemma bitLength_nonpos: "n \<le> 0 \<Longrightarrow> bitLength n = 0"
  by (subst bitLength.simps) simp

lemma bitLength_pos: "0 < n \<Longrightarrow> bitLength n = 1 + bitLength (n div 2)"
  by (subst bitLength.simps) simp

lemma bitLength_bounds:
  "0 < n \<Longrightarrow> 0 < bitLength n \<and> 2 ^ nat (bitLength n - 1) \<le> n \<and> n < 2 ^ nat (bitLength n)"
proof (induction n rule: bitLength.induct)
  case (1 n)
  show ?case
  proof (cases "n = 1")
    case True
    then show ?thesis
      by (simp add: bitLength_pos bitLength_nonpos)
  next
    case False
    with "1.prems" have h: "0 < n div 2" by simp
    from "1.prems" have "\<not> n \<le> 0" by simp
    from "1.IH"[OF this h]
    have b: "0 < bitLength (n div 2)"
      and lo: "2 ^ nat (bitLength (n div 2) - 1) \<le> n div 2"
      and hi: "n div 2 < 2 ^ nat (bitLength (n div 2))"
      by simp_all
    let ?b = "bitLength (n div 2)"
    have eq: "bitLength n = 1 + ?b"
      using "1.prems" by (rule bitLength_pos)
    have "nat ?b = Suc (nat (?b - 1))"
      using b by simp
    then have p: "(2::int) ^ nat ?b = 2 * 2 ^ nat (?b - 1)"
      by simp
    have "nat (1 + ?b) = Suc (nat ?b)"
      using b by simp
    then have p2: "(2::int) ^ nat (1 + ?b) = 2 * 2 ^ nat ?b"
      by simp
    have "2 ^ nat (bitLength n - 1) \<le> n"
      unfolding eq using lo p by simp
    moreover have "n < 2 ^ nat (bitLength n)"
      unfolding eq p2 using hi by linarith
    ultimately show ?thesis using eq b by simp
  qed
qed

lemma roundHalfEven_error: "\<bar>of_int (roundHalfEven n) - n\<bar> \<le> 1 / 2"
proof -
  let ?f = "\<lfloor>n\<rfloor>"
  have f: "of_int ?f \<le> n" "n < of_int ?f + 1"
    by linarith+
  consider "n - of_int ?f < 1 / 2" | "1 / 2 < n - of_int ?f" | "n - of_int ?f = 1 / 2"
    by linarith
  then show ?thesis
  proof cases
    case 1
    then have "roundHalfEven n = ?f" unfolding roundHalfEven_def Let_def by simp
    then show ?thesis using 1 f by simp
  next
    case 2
    then have "roundHalfEven n = ?f + 1" unfolding roundHalfEven_def Let_def by simp
    then show ?thesis using 2 f by simp
  next
    case 3
    then have "roundHalfEven n = ?f \<or> roundHalfEven n = ?f + 1"
      unfolding roundHalfEven_def Let_def by simp
    then show ?thesis using 3 f by auto
  qed
qed

lemma roundHalfEven_of_int: "roundHalfEven (of_int k) = k"
  unfolding roundHalfEven_def Let_def by simp

lemma roundHalfEven_near_even:
  assumes "even H" "\<bar>t\<bar> \<le> 1 / 2"
  shows "roundHalfEven (of_int H + t) = H"
proof -
  from assms(2) have t: "- (1 / 2) \<le> t" "t \<le> 1 / 2"
    by (simp_all add: abs_le_iff) 
  show ?thesis
  proof (cases "t = 1 / 2")
    case True
    have "\<lfloor>rat_of_int H + 1 / 2\<rfloor> = H" by linarith
    then show ?thesis unfolding roundHalfEven_def Let_def True using assms(1) by simp
  next
    case nh: False
    show ?thesis
    proof (cases "t = - (1 / 2)")
      case True
      have "\<lfloor>rat_of_int H + - (1 / 2)\<rfloor> = H - 1" by linarith
      then show ?thesis unfolding roundHalfEven_def Let_def True using assms(1) by simp
    next
      case False
      with nh t have 3: "- (1 / 2) < t" "t < 1 / 2" by simp_all
      show ?thesis
      proof (cases "0 \<le> t")
        case True
        then have "\<lfloor>rat_of_int H + t\<rfloor> = H" using 3 by linarith
        then show ?thesis unfolding roundHalfEven_def Let_def using 3 by simp
      next
        case False
        then have "\<lfloor>rat_of_int H + t\<rfloor> = H - 1" using 3 by linarith
        then show ?thesis unfolding roundHalfEven_def Let_def using 3 False by simp
      qed
    qed
  qed
qed

lemma powi_two_pos: "0 < (2::rat) powi k"
  by (simp add: power_int_def)

lemma powi_two_Suc: "(2::rat) powi (k + 1) = 2 * 2 powi k"
  by (simp add: power_int_add)

lemma powi_two_mono: "a \<le> b \<Longrightarrow> (2::rat) powi a \<le> 2 powi b"
  by (rule power_int_increasing) simp_all

lemma powi_two_strict_mono: "a < b \<Longrightarrow> (2::rat) powi a < 2 powi b"
  by (rule power_int_strict_increasing) simp_all

lemma bitLength_powi:
  assumes "0 < n"
  shows "2 powi (bitLength n - 1) \<le> rat_of_int n" "rat_of_int n < 2 powi (bitLength n)"
proof -
  from bitLength_bounds[OF assms]
  have b: "0 < bitLength n" and lo: "2 ^ nat (bitLength n - 1) \<le> n" and hi: "n < 2 ^ nat (bitLength n)"
    by simp_all
  have "(2::rat) powi (bitLength n - 1) = 2 ^ nat (bitLength n - 1)"
    using b by (simp add: power_int_def)
  also have "\<dots> = rat_of_int (2 ^ nat (bitLength n - 1))" by simp
  also have "\<dots> \<le> rat_of_int n" using lo by (simp only: of_int_le_iff)
  finally show "2 powi (bitLength n - 1) \<le> rat_of_int n" .
  have "rat_of_int n < rat_of_int (2 ^ nat (bitLength n))"
    using hi by (simp only: of_int_less_iff)
  also have "\<dots> = 2 ^ nat (bitLength n)" by simp
  also have "\<dots> = (2::rat) powi (bitLength n)"
    using b by (simp add: power_int_def)
  finally show "rat_of_int n < 2 powi (bitLength n)" .
qed

lemma ilog2_bounds:
  assumes "0 < m"
  shows "2 powi (ilog2 m) \<le> m" "m < 2 powi (ilog2 m + 1)"
proof -
  obtain p q where pq: "quotient_of m = (p, q)"
    by (cases "quotient_of m")
  then have q: "0 < q" and m: "m = rat_of_int p / rat_of_int q"
    by (simp_all add: quotient_of_denom_pos quotient_of_div)
  have p: "0 < p"
    using assms q unfolding m by (simp add: zero_less_divide_iff)
  let ?d = "bitLength p - bitLength q"
  define A where "A = (2::rat) powi (bitLength p - 1)"
  define C where "C = (2::rat) powi (bitLength q - 1)"
  have A: "0 < A" and C: "0 < C" unfolding A_def C_def by (rule powi_two_pos)+
  have B: "(2::rat) powi (bitLength p) = 2 * A"
    unfolding A_def using powi_two_Suc[of "bitLength p - 1"] by simp
  have D: "(2::rat) powi (bitLength q) = 2 * C"
    unfolding C_def using powi_two_Suc[of "bitLength q - 1"] by simp
  have pl: "A \<le> rat_of_int p" and ph: "rat_of_int p < 2 * A"
    using bitLength_powi[OF p] unfolding A_def[symmetric] B by simp_all
  have ql: "C \<le> rat_of_int q" and qh: "rat_of_int q < 2 * C"
    using bitLength_powi[OF q] unfolding C_def[symmetric] D by simp_all
  have q': "0 < rat_of_int q" using q by simp
  have d: "(2::rat) powi ?d = A / C"
    unfolding A_def C_def by (simp add: power_int_diff)
  have up: "m < 2 * (A / C)"
  proof -
    have "rat_of_int p * C < 2 * A * C" using ph C by simp
    also have "\<dots> \<le> 2 * A * rat_of_int q" using ql A by simp
    finally have "rat_of_int p * C < 2 * A * rat_of_int q" .
    then show ?thesis unfolding m using C q' by (simp add: field_simps)
  qed
  have lo: "A / C / 2 < m"
  proof -
    have "A * rat_of_int q < A * (2 * C)" using qh A by simp
    also have "\<dots> \<le> rat_of_int p * (2 * C)" using pl C by simp
    finally have "A * rat_of_int q < rat_of_int p * (2 * C)" .
    then show ?thesis unfolding m using C q' by (simp add: field_simps)
  qed
  have d1: "(2::rat) powi (?d + 1) = 2 * (A / C)"
    using powi_two_Suc[of ?d] d by simp
  have d0: "(2::rat) powi (?d - 1) = A / C / 2"
    using powi_two_Suc[of "?d - 1"] d by simp
  show "2 powi (ilog2 m) \<le> m"
  proof (cases "2 powi ?d \<le> m")
    case True
    then have "ilog2 m = ?d" unfolding ilog2_def pq by simp
    with True show ?thesis by simp
  next
    case False
    then have "ilog2 m = ?d - 1" unfolding ilog2_def pq by simp
    with lo d0 show ?thesis by simp
  qed
  show "m < 2 powi (ilog2 m + 1)"
  proof (cases "2 powi ?d \<le> m")
    case True
    then have "ilog2 m = ?d" unfolding ilog2_def pq by simp
    with up d1 show ?thesis by simp
  next
    case False
    then have "ilog2 m = ?d - 1" unfolding ilog2_def pq by simp
    with False show ?thesis by simp
  qed
qed

lemma ilog2_eqI:
  assumes "2 powi e \<le> m" "m < 2 powi (e + 1)"
  shows "ilog2 m = e"
proof -
  have m: "0 < m" using assms(1) powi_two_pos[of e] by linarith
  note b = ilog2_bounds[OF m]
  have "\<not> ilog2 m < e"
  proof
    assume "ilog2 m < e"
    then have "ilog2 m + 1 \<le> e" by simp
    then have "(2::rat) powi (ilog2 m + 1) \<le> 2 powi e" by (rule powi_two_mono)
    with b(2) assms(1) show False by linarith
  qed
  moreover have "\<not> e < ilog2 m"
  proof
    assume "e < ilog2 m"
    then have "e + 1 \<le> ilog2 m" by simp
    then have "(2::rat) powi (e + 1) \<le> 2 powi (ilog2 m)" by (rule powi_two_mono)
    with b(1) assms(2) show False by linarith
  qed
  ultimately show ?thesis by simp
qed

lemma ilog2_ge: "2 powi e \<le> m \<Longrightarrow> e \<le> ilog2 m"
proof -
  assume a: "2 powi e \<le> m"
  then have m: "0 < m" using powi_two_pos[of e] by linarith
  show ?thesis
  proof (rule ccontr)
    assume "\<not> e \<le> ilog2 m"
    then have "ilog2 m + 1 \<le> e" by simp
    then have "(2::rat) powi (ilog2 m + 1) \<le> 2 powi e" by (rule powi_two_mono)
    with ilog2_bounds(2)[OF m] a show False by linarith
  qed
qed

lemma ilog2_le: "0 < m \<Longrightarrow> m < 2 powi (e + 1) \<Longrightarrow> ilog2 m \<le> e"
proof -
  assume m: "0 < m" and a: "m < 2 powi (e + 1)"
  show ?thesis
  proof (rule ccontr)
    assume "\<not> ilog2 m \<le> e"
    then have "e + 1 \<le> ilog2 m" by simp
    then have "(2::rat) powi (e + 1) \<le> 2 powi (ilog2 m)" by (rule powi_two_mono)
    with ilog2_bounds(1)[OF m] a show False by linarith
  qed
qed

lemma roundToDouble_normal:
  assumes "0 < m" "- 1022 \<le> ilog2 m" "ilog2 m \<le> 1022"
  shows "roundToDouble s m
         = Num s (of_int (roundHalfEven (m / 2 powi (ilog2 m - 52))) * 2 powi (ilog2 m - 52))"
proof -
  have "max (ilog2 m) (- 1022) = ilog2 m" using assms(2) by simp
  then show ?thesis
    unfolding roundToDouble_def Let_def using assms(1,3) by simp
qed

lemma roundToDouble_error:
  assumes "0 < m" "- 1022 \<le> ilog2 m" "ilog2 m \<le> 1022"
  shows "\<exists>y. roundToDouble s m = Num s y \<and> \<bar>y - m\<bar> \<le> m / 2 ^ 53"
proof -
  let ?q = "(2::rat) powi (ilog2 m - 52)"
  let ?r = "rat_of_int (roundHalfEven (m / ?q))"
  have q: "0 < ?q" by (rule powi_two_pos)
  have "\<bar>?r - m / ?q\<bar> \<le> 1 / 2" by (rule roundHalfEven_error)
  then have "\<bar>?r - m / ?q\<bar> * ?q \<le> 1 / 2 * ?q"
    using q by (simp only: mult_le_cancel_right_pos)
  moreover have "\<bar>?r - m / ?q\<bar> * ?q = \<bar>?r * ?q - m\<bar>"
  proof -
    have "\<bar>?r - m / ?q\<bar> * ?q = \<bar>(?r - m / ?q) * ?q\<bar>"
      using q by (simp add: abs_mult)
    also have "(?r - m / ?q) * ?q = ?r * ?q - m"
      using q by (simp add: field_simps)
    finally show ?thesis .
  qed
  ultimately have e1: "\<bar>?r * ?q - m\<bar> \<le> ?q / 2" by simp
  have "?q = 2 powi (ilog2 m) / 2 ^ 52"
    by (simp add: power_int_diff)
  then have "?q / 2 = 2 powi (ilog2 m) / 2 ^ 53" by simp
  also have "\<dots> \<le> m / 2 ^ 53"
    using ilog2_bounds(1)[OF assms(1)] by (simp add: divide_right_mono)
  finally have "\<bar>?r * ?q - m\<bar> \<le> m / 2 ^ 53" using e1 by linarith
  then show ?thesis
    using roundToDouble_normal[OF assms, of s] by blast
qed

lemma roundToDouble_nat:
  assumes "k < 2 ^ 53"
  shows "roundToDouble s (of_nat k) = Num s (of_nat k)"
proof (cases "k = 0")
  case True
  then show ?thesis by (simp add: roundToDouble_def)
next
  case False
  let ?m = "rat_of_nat k"
  have m: "0 < ?m" using False by simp
  have "(2::rat) powi 0 \<le> ?m" using False by simp
  then have lo: "0 \<le> ilog2 ?m" by (rule ilog2_ge)
  have "?m < 2 ^ 53" using assms by (metis of_nat_less_iff of_nat_numeral of_nat_power)
  then have "?m < 2 powi (52 + 1)" by simp
  then have hi: "ilog2 ?m \<le> 52" by (rule ilog2_le[OF m])
  let ?e = "ilog2 ?m"
  have "(2::rat) powi (?e - 52) = 1 / 2 powi (52 - ?e)"
    by (simp add: power_int_diff)
  moreover have "(2::rat) powi (52 - ?e) = rat_of_int (2 ^ nat (52 - ?e))"
    using hi by (simp add: power_int_def)
  ultimately have q: "(2::rat) powi (?e - 52) = 1 / rat_of_int (2 ^ nat (52 - ?e))"
    by simp
  have "?m / 2 powi (?e - 52) = rat_of_int (int k * 2 ^ nat (52 - ?e))"
    unfolding q by simp
  then have "roundHalfEven (?m / 2 powi (?e - 52)) = int k * 2 ^ nat (52 - ?e)"
    by (simp only: roundHalfEven_of_int)
  then have "rat_of_int (roundHalfEven (?m / 2 powi (?e - 52))) * 2 powi (?e - 52) = ?m"
    unfolding q by simp
  then show ?thesis
    using roundToDouble_normal[of ?m s] m lo hi by simp
qed

lemma powi_consts:
  "(2::rat) powi (- 5) = 1 / 32" "(2::rat) powi 7 = 128" "(2::rat) powi 10 = 1024"
  "(2::rat) powi 6 = 64" "(2::rat) powi (- 2) = 1 / 4" "(2::rat) powi (- 1) = 1 / 2"
  "(2::rat) powi 3 = 8" "(2::rat) powi (- 30) = 1 / 2 ^ 30" "(2::rat) powi 0 = 1"
  by (simp_all add: power_int_def power_one_over[symmetric] inverse_eq_divide power_divide)

lemma abs_bounds: "\<bar>x\<bar> \<le> (c::rat) \<longleftrightarrow> - c \<le> x \<and> x \<le> c"
  by (auto simp: abs_le_iff)

lemma nearest_fifth:
  "\<bar>rat_of_int (roundHalfEven (rat_of_int N / 5)) - rat_of_int N / 5\<bar> \<le> 2 / 5"
proof -
  let ?r = "roundHalfEven (rat_of_int N / 5)"
  have "\<bar>rat_of_int ?r - rat_of_int N / 5\<bar> \<le> 1 / 2" by (rule roundHalfEven_error)
  then have "- (1 / 2) \<le> rat_of_int ?r - rat_of_int N / 5" "rat_of_int ?r - rat_of_int N / 5 \<le> 1 / 2"
    by (simp_all only: abs_bounds)
  then have "rat_of_int (-3) < rat_of_int (5 * ?r - N)" "rat_of_int (5 * ?r - N) < rat_of_int 3"
    by simp_all
  then have "- 3 < 5 * ?r - N" "5 * ?r - N < 3"
    by (simp_all only: of_int_less_iff)
  then have "- 2 \<le> 5 * ?r - N" "5 * ?r - N \<le> 2" by simp_all
  then have "rat_of_int (- 2) \<le> rat_of_int (5 * ?r - N)" "rat_of_int (5 * ?r - N) \<le> rat_of_int 2"
    by (simp_all only: of_int_le_iff)
  then have "- (2 / 5) \<le> rat_of_int ?r - rat_of_int N / 5" "rat_of_int ?r - rat_of_int N / 5 \<le> 2 / 5"
    by simp_all
  then show ?thesis by (simp only: abs_bounds)
qed

lemma powi_two_diff: "(2::rat) powi (a - b) = 2 powi a / 2 powi b"
  by (simp add: power_int_diff)

lemma powi_two_add: "(2::rat) powi (a + b) = 2 powi a * 2 powi b"
  by (simp add: power_int_add)

text \<open>j / 20, rounded, times ten, rounded, is j / 2.\<close>

lemma tenth_times_ten:
  assumes "1 \<le> j" "j \<le> 2000"
  shows "\<exists>a. roundToDouble False (rat_of_nat j / 20) = Num False a
           \<and> roundToDouble False (a * 10) = Num False (rat_of_nat j / 2)"
proof -
  let ?z = "rat_of_nat j / 20"
  let ?h = "rat_of_nat j / 2"
  have j1: "1 \<le> rat_of_nat j" using assms(1) by simp
  have j2: "rat_of_nat j \<le> 2000" using assms(2) by (metis of_nat_le_iff of_nat_numeral)
  have z: "0 < ?z" using j1 by simp
  define e where "e = ilog2 ?z"
  have "(2::rat) powi (- 5) \<le> ?z" unfolding powi_consts using j1 by simp
  then have elo: "- 5 \<le> e" unfolding e_def by (rule ilog2_ge)
  have "?z < 2 powi (6 + 1)" using j2 by (simp add: powi_consts)
  then have ehi: "e \<le> 6" unfolding e_def by (rule ilog2_le[OF z])
  define q where "q = (2::rat) powi (e - 52)"
  have q: "0 < q" unfolding q_def by (rule powi_two_pos)
  define r where "r = roundHalfEven (?z / q)"
  define a where "a = rat_of_int r * q"
  have ra: "roundToDouble False ?z = Num False a"
    unfolding a_def r_def q_def e_def
    using roundToDouble_normal[OF z, of False] elo ehi unfolding e_def by simp
  \<comment> \<open>the first rounding misses by at most two fifths of a unit\<close>
  have pe: "(2::rat) powi e \<le> ?z" unfolding e_def by (rule ilog2_bounds(1)[OF z])
  have q4: "(2::rat) powi (50 - e) = rat_of_int (2 ^ nat (50 - e))"
    using ehi by (simp add: power_int_def)
  have "q = 1 / (4 * 2 powi (50 - e))"
  proof -
    have "(2::rat) powi (e - 52) = 2 powi (- 2 - (50 - e))" by simp
    also have "\<dots> = 2 powi (- 2) / 2 powi (50 - e)" by (rule powi_two_diff)
    also have "\<dots> = 1 / (4 * 2 powi (50 - e))" by (simp add: powi_consts)
    finally show ?thesis unfolding q_def .
  qed
  then have zq: "?z / q = rat_of_int (int j * 2 ^ nat (50 - e)) / 5"
    unfolding q4 by simp
  have "\<bar>rat_of_int r - ?z / q\<bar> \<le> 2 / 5"
    unfolding r_def zq by (rule nearest_fifth)
  then have "\<bar>rat_of_int r - ?z / q\<bar> * q \<le> 2 / 5 * q"
    using q by (simp only: mult_le_cancel_right_pos)
  moreover have "\<bar>rat_of_int r - ?z / q\<bar> * q = \<bar>a - ?z\<bar>"
  proof -
    have "\<bar>rat_of_int r - ?z / q\<bar> * q = \<bar>(rat_of_int r - ?z / q) * q\<bar>"
      using q by (simp add: abs_mult)
    also have "(rat_of_int r - ?z / q) * q = a - ?z"
      unfolding a_def using q by (simp add: field_simps)
    finally show ?thesis .
  qed
  ultimately have az: "\<bar>a - ?z\<bar> \<le> 2 / 5 * q" by simp
  then have az': "- (2 / 5 * q) \<le> a - ?z" "a - ?z \<le> 2 / 5 * q"
    by (simp_all only: abs_bounds)
  then have xh': "- (4 * q) \<le> a * 10 - ?h" "a * 10 - ?h \<le> 4 * q"
    by linarith+
  then have xh: "\<bar>a * 10 - ?h\<bar> \<le> 4 * q" by (simp only: abs_bounds)
  \<comment> \<open>the product lies at least three binades above\<close>
  have qe: "q = 2 powi e / 2 ^ 52" unfolding q_def by (simp add: power_int_diff)
  have pe0: "0 < (2::rat) powi e" by (rule powi_two_pos)
  have qsmall: "4 * q \<le> 2 powi e" unfolding qe using pe0 by simp
  have "8 * 2 powi e \<le> a * 10"
    using xh' pe qsmall by linarith
  moreover have "(2::rat) powi (e + 3) = 8 * 2 powi e"
    by (simp add: power_int_add powi_consts)
  ultimately have x3: "2 powi (e + 3) \<le> a * 10" by simp
  then have x: "0 < a * 10" using powi_two_pos[of "e + 3"] by linarith
  define ex where "ex = ilog2 (a * 10)"
  have exlo: "e + 3 \<le> ex" unfolding ex_def using x3 by (rule ilog2_ge)
  have "2 powi e \<le> (2::rat) powi 6" using ehi by (rule powi_two_mono)
  then have "2 powi e / 2 ^ 52 \<le> (64::rat) / 2 ^ 52"
    unfolding powi_consts by (rule divide_right_mono) simp
  then have "4 * q \<le> 1" unfolding qe by simp
  then have "a * 10 < 1024" using xh' j2 by linarith
  then have "a * 10 < 2 powi (9 + 1)" by (simp add: powi_consts)
  then have exhi: "ex \<le> 9" unfolding ex_def by (rule ilog2_le[OF x])
  define qx where "qx = (2::rat) powi (ex - 52)"
  have qx: "0 < qx" unfolding qx_def by (rule powi_two_pos)
  have rx: "roundToDouble False (a * 10)
            = Num False (rat_of_int (roundHalfEven (a * 10 / qx)) * qx)"
    unfolding qx_def ex_def
    using roundToDouble_normal[OF x, of False] exlo exhi elo unfolding ex_def by simp
  \<comment> \<open>j / 2 is an even multiple of the unit there, and the product is within half a unit\<close>
  define H where "H = int j * 2 ^ nat (51 - ex)"
  have "nat (51 - ex) = Suc (nat (50 - ex))" using exhi by simp
  then have evenH: "even H" unfolding H_def by simp
  have q5: "(2::rat) powi (51 - ex) = rat_of_int (2 ^ nat (51 - ex))"
    using exhi by (simp add: power_int_def)
  have qx': "qx = 1 / (2 * 2 powi (51 - ex))"
  proof -
    have "(2::rat) powi (ex - 52) = 2 powi (- 1 - (51 - ex))" by simp
    also have "\<dots> = 2 powi (- 1) / 2 powi (51 - ex)" by (rule powi_two_diff)
    also have "\<dots> = 1 / (2 * 2 powi (51 - ex))" by (simp add: powi_consts)
    finally show ?thesis unfolding qx_def .
  qed
  have hH: "?h / qx = rat_of_int H" unfolding qx' q5 H_def by simp
  define t where "t = (a * 10 - ?h) / qx"
  have xt: "a * 10 / qx = rat_of_int H + t"
    unfolding t_def hH[symmetric] by (simp add: diff_divide_distrib)
  have "q * 8 \<le> qx"
  proof -
    have "(2::rat) powi (e + 3 - 52) \<le> 2 powi (ex - 52)"
      using exlo by (intro powi_two_mono) simp
    moreover have "(2::rat) powi (e - 52 + 3) = 2 powi (e - 52) * 2 powi 3"
      by (rule powi_two_add)
    moreover have "e + 3 - 52 = e - 52 + 3" by simp
    ultimately show ?thesis unfolding q_def qx_def by (simp add: powi_consts)
  qed
  then have "4 * q \<le> 1 / 2 * qx" by simp
  with xh have "\<bar>a * 10 - ?h\<bar> \<le> 1 / 2 * qx" by linarith
  then have "\<bar>a * 10 - ?h\<bar> / qx \<le> 1 / 2"
    using qx by (simp add: field_simps)
  then have tb: "\<bar>t\<bar> \<le> 1 / 2" unfolding t_def using qx by (simp add: abs_divide)
  have "roundHalfEven (a * 10 / qx) = H"
    unfolding xt using evenH tb by (rule roundHalfEven_near_even)
  then have "rat_of_int (roundHalfEven (a * 10 / qx)) * qx = ?h"
    using hH qx by (simp add: field_simps)
  with rx ra show ?thesis by simp
qed

lemma mean_rounding_gap:
  fixes S T :: nat and K :: int
  assumes T: "0 < T" "T \<le> 2 ^ 30" and S: "0 < S" "S \<le> 100 * T"
    and K: "K = \<lfloor>10 * (rat_of_nat S / rat_of_nat T) + 1 / 2\<rfloor>"
    and nt: "(2 * K - 1) * int T \<noteq> 20 * int S"
  shows "\<exists>a b. roundToDouble False (rat_of_nat S / rat_of_nat T) = Num False a
           \<and> roundToDouble False (a * 10) = Num False b
           \<and> \<lfloor>b + 1 / 2\<rfloor> = K"
proof -
  define t where "t = rat_of_nat T"
  define s where "s = rat_of_nat S"
  define z where "z = s / t"
  have t: "0 < t" "t \<le> 2 ^ 30"
    unfolding t_def using T by (simp, metis of_nat_le_iff of_nat_numeral of_nat_power)
  have s: "1 \<le> s" "s \<le> 100 * t"
    unfolding s_def t_def using S by (simp, metis of_nat_le_iff of_nat_mult of_nat_numeral)
  have zt: "z * t = s" unfolding z_def using t by simp
  have z100: "z \<le> 100" unfolding z_def using s t by (simp add: field_simps)
  have zlo: "1 / 2 ^ 30 \<le> z"
  proof -
    have "1 / 2 ^ 30 \<le> 1 / t" using t by (simp add: field_simps)
    also have "\<dots> \<le> s / t" using s t by (simp add: divide_right_mono)
    finally show ?thesis unfolding z_def .
  qed
  have z: "0 < z" using zlo by (simp add: less_le_trans[of 0 "1 / 2 ^ 30"])
  \<comment> \<open>the quotient keeps a distance from the two rounding boundaries\<close>
  have fl: "rat_of_int K \<le> 10 * z + 1 / 2" "10 * z + 1 / 2 < rat_of_int K + 1"
    unfolding K z_def s_def t_def by linarith+
  have "(rat_of_int K - 1 / 2) * t \<le> 10 * z * t"
    using fl(1) t by (intro mult_right_mono) simp_all
  then have "rat_of_int ((2 * K - 1) * int T) \<le> rat_of_int (20 * int S)"
    using zt unfolding s_def t_def by (simp add: algebra_simps)
  then have i1: "(2 * K - 1) * int T \<le> 20 * int S" by (simp only: of_int_le_iff)
  have "10 * z * t < (rat_of_int K + 1 / 2) * t"
    using fl(2) t by (intro mult_strict_right_mono) simp_all
  then have "rat_of_int (20 * int S) < rat_of_int ((2 * K + 1) * int T)"
    using zt unfolding s_def t_def by (simp add: algebra_simps)
  then have i2: "20 * int S < (2 * K + 1) * int T" by (simp only: of_int_less_iff)
  from i1 nt have "(2 * K - 1) * int T + 1 \<le> 20 * int S" by simp
  then have "rat_of_int ((2 * K - 1) * int T + 1) \<le> rat_of_int (20 * int S)"
    by (simp only: of_int_le_iff)
  then have g1: "(2 * rat_of_int K - 1) * t + 1 \<le> 20 * s"
    unfolding s_def t_def by simp
  from i2 have "20 * int S + 1 \<le> (2 * K + 1) * int T" by simp
  then have "rat_of_int (20 * int S + 1) \<le> rat_of_int ((2 * K + 1) * int T)"
    by (simp only: of_int_le_iff)
  then have g2: "20 * s + 1 \<le> (2 * rat_of_int K + 1) * t"
    unfolding s_def t_def by simp
  define g where "g = 1 / (2 * t)"
  have glo: "1 / 2 ^ 31 \<le> g" unfolding g_def using t by (simp add: field_simps)
  have b1: "rat_of_int K - 1 / 2 + g \<le> 10 * z"
  proof -
    have "((2 * rat_of_int K - 1) * t + 1) / (2 * t) \<le> 20 * s / (2 * t)"
      using g1 t by (intro divide_right_mono) simp_all
    moreover have "((2 * rat_of_int K - 1) * t + 1) / (2 * t) = rat_of_int K - 1 / 2 + g"
      unfolding g_def using t by (simp add: field_simps)
    moreover have "20 * s / (2 * t) = 10 * z" unfolding z_def by simp
    ultimately show ?thesis by simp
  qed
  have b2: "10 * z \<le> rat_of_int K + 1 / 2 - g"
  proof -
    have "(20 * s + 1) / (2 * t) \<le> (2 * rat_of_int K + 1) * t / (2 * t)"
      using g2 t by (intro divide_right_mono) simp_all
    moreover have "(20 * s + 1) / (2 * t) = 10 * z + g"
      unfolding g_def z_def using t by (simp add: field_simps)
    moreover have "(2 * rat_of_int K + 1) * t / (2 * t) = rat_of_int K + 1 / 2"
      using t by (simp add: field_simps)
    ultimately show ?thesis by simp
  qed
  \<comment> \<open>the two roundings move the value by less than that distance\<close>
  have "(2::rat) powi (- 30) \<le> z" using zlo by (simp add: powi_consts)
  then have e1: "- 30 \<le> ilog2 z" by (rule ilog2_ge)
  have "z < 2 powi (6 + 1)" using z100 by (simp add: powi_consts)
  then have e2: "ilog2 z \<le> 6" by (rule ilog2_le[OF z])
  obtain a where a: "roundToDouble False z = Num False a" and ae: "\<bar>a - z\<bar> \<le> z / 2 ^ 53"
    using roundToDouble_error[OF z, of False] e1 e2 by auto
  from ae have ae': "- (z / 2 ^ 53) \<le> a - z" "a - z \<le> z / 2 ^ 53"
    by (simp_all only: abs_bounds)
  have "z / 2 ^ 53 \<le> z / 2" using z by (simp add: field_simps)
  then have alo: "z / 2 \<le> a" and ahi: "a \<le> 2 * z" using ae' z by linarith+
  have x: "0 < a * 10" using alo z by linarith
  have "(2::rat) powi (- 30) \<le> a * 10" using alo zlo by (simp add: powi_consts)
  then have e3: "- 30 \<le> ilog2 (a * 10)" by (rule ilog2_ge)
  have "a * 10 < 2048" using ahi z100 by linarith
  then have "a * 10 < 2 powi (10 + 1)" by (simp add: power_int_def)
  then have e4: "ilog2 (a * 10) \<le> 10" by (rule ilog2_le[OF x])
  obtain b where b: "roundToDouble False (a * 10) = Num False b"
    and be: "\<bar>b - a * 10\<bar> \<le> a * 10 / 2 ^ 53"
    using roundToDouble_error[OF x, of False] e3 e4 by auto
  from be have be': "- (a * 10 / 2 ^ 53) \<le> b - a * 10" "b - a * 10 \<le> a * 10 / 2 ^ 53"
    by (simp_all only: abs_bounds)
  have "a * 10 / 2 ^ 53 \<le> 2000 / 2 ^ 53"
    using ahi z100 by (intro divide_right_mono) simp_all
  moreover have "z / 2 ^ 53 \<le> 100 / 2 ^ 53"
    using z100 by (intro divide_right_mono) simp_all
  ultimately have d: "- (3000 / 2 ^ 53) \<le> b - 10 * z" "b - 10 * z \<le> 3000 / 2 ^ 53"
    using ae' be' by linarith+
  have "(3000::rat) / 2 ^ 53 < 1 / 2 ^ 31" by simp
  then have "3000 / 2 ^ 53 < g" using glo by linarith
  then have "rat_of_int K \<le> b + 1 / 2" "b + 1 / 2 < rat_of_int K + 1"
    using d b1 b2 by linarith+
  then have "\<lfloor>b + 1 / 2\<rfloor> = K" by linarith
  with a b show ?thesis unfolding z_def s_def t_def by blast
qed

lemma mean_rounding:
  fixes S T :: nat
  assumes T: "0 < T" "T \<le> 2 ^ 30" and S: "S \<le> 100 * T"
  shows "\<exists>a b. roundToDouble False (rat_of_nat S / rat_of_nat T) = Num False a
           \<and> roundToDouble False (a * 10) = Num False b
           \<and> \<lfloor>b + 1 / 2\<rfloor> = Math_round (rat_of_nat S / rat_of_nat T * 10)"
proof (cases "S = 0")
  case True
  have "roundToDouble False 0 = Num False 0" by (simp add: roundToDouble_def)
  then have "roundToDouble False (rat_of_nat S / rat_of_nat T) = Num False 0
      \<and> roundToDouble False (0 * 10) = Num False 0
      \<and> \<lfloor>(0::rat) + 1 / 2\<rfloor> = Math_round (rat_of_nat S / rat_of_nat T * 10)"
    unfolding True Math_round_def by simp
  then show ?thesis by blast
next
  case False
  then have S0: "0 < S" by simp
  define K where "K = \<lfloor>10 * (rat_of_nat S / rat_of_nat T) + 1 / 2\<rfloor>"
  have MK: "Math_round (rat_of_nat S / rat_of_nat T * 10) = K"
    unfolding Math_round_def K_def by (simp add: mult.commute)
  show ?thesis
  proof (cases "(2 * K - 1) * int T = 20 * int S")
    case nt: False
    from mean_rounding_gap[OF T S0 S K_def nt] show ?thesis unfolding MK .
  next
    case tie: True
    have t: "0 < rat_of_nat T" using T by simp
    from tie have "rat_of_int ((2 * K - 1) * int T) = rat_of_int (20 * int S)" by simp
    then have "rat_of_int (2 * K - 1) * rat_of_nat T = 20 * rat_of_nat S" by simp
    then have zK: "rat_of_nat S / rat_of_nat T = rat_of_int (2 * K - 1) / 20"
      using t by (simp add: field_simps)
    have "0 < (2 * K - 1) * int T" using tie S0 by simp
    then have "0 < 2 * K - 1" using T by (simp add: zero_less_mult_iff)
    moreover have "(2 * K - 1) * int T \<le> 2000 * int T" using tie S by linarith
    then have "2 * K - 1 \<le> 2000" using T by simp
    ultimately obtain j where j: "2 * K - 1 = int j" "1 \<le> j" "j \<le> 2000"
      by (metis nat_0_le nat_le_iff nat_numeral less_le_not_le linorder_le_cases nat_int int_one_le_iff_zero_less of_nat_1 nat_mono nat_one_as_int)
    have zj: "rat_of_nat S / rat_of_nat T = rat_of_nat j / 20"
      unfolding zK j(1) by simp
    obtain a where a: "roundToDouble False (rat_of_nat j / 20) = Num False a"
      and b: "roundToDouble False (a * 10) = Num False (rat_of_nat j / 2)"
      using tenth_times_ten[OF j(2,3)] by blast
    have "rat_of_nat j / 2 + 1 / 2 = rat_of_int K"
    proof -
      have "rat_of_int (int j) = rat_of_int (2 * K - 1)" using j(1) by simp
      then have "rat_of_nat j = 2 * rat_of_int K - 1" by simp
      then show ?thesis by (simp add: field_simps)
    qed
    then have "\<lfloor>rat_of_nat j / 2 + 1 / 2\<rfloor> = K" by simp
    moreover have "Math_round (rat_of_nat j / 20 * 10) = K" using MK unfolding zj .
    ultimately have "roundToDouble False (rat_of_nat j / 20) = Num False a
        \<and> roundToDouble False (a * 10) = Num False (rat_of_nat j / 2)
        \<and> \<lfloor>rat_of_nat j / 2 + 1 / 2\<rfloor> = Math_round (rat_of_nat j / 20 * 10)"
      using a b by simp
    then show ?thesis unfolding zj by (intro exI)
  qed
qed

lemma js_add_num:
  assumes "a + b < 2 ^ 53"
  shows "js_add (natNumber a) (natNumber b) = natNumber (a + b)"
proof (cases "a + b = 0")
  case True
  then show ?thesis by (simp add: natNumber_def numval_def)
next
  case False
  then have "rat_of_nat a + rat_of_nat b \<noteq> 0" "\<not> rat_of_nat a + rat_of_nat b < 0"
    by (simp_all add: of_nat_add[symmetric] del: of_nat_add)
  then have "js_add (natNumber a) (natNumber b) = roundToDouble False (rat_of_nat (a + b))"
    by (simp add: natNumber_def numval_def)
  then show ?thesis using roundToDouble_nat[OF assms] by (simp add: natNumber_def)
qed

lemma js_mul_num:
  assumes "a * b < 2 ^ 53"
  shows "js_mul (natNumber a) (natNumber b) = natNumber (a * b)"
  using roundToDouble_nat[OF assms, of False] by (simp add: natNumber_def)

lemma foldl_js_add_num:
  "a + sum_list xs < 2 ^ 53 \<Longrightarrow>
   foldl (\<lambda>sum w. js_add sum w) (natNumber a) (map natNumber xs) = natNumber (a + sum_list xs)"
proof (induction xs arbitrary: a)
  case Nil
  then show ?case by simp
next
  case (Cons x xs)
  from Cons.prems have "a + x < 2 ^ 53" by simp
  then have "js_add (natNumber a) (natNumber x) = natNumber (a + x)" by (rule js_add_num)
  moreover have "foldl (\<lambda>sum w. js_add sum w) (natNumber (a + x)) (map natNumber xs) = natNumber (a + x + sum_list xs)"
    using Cons.prems by (intro Cons.IH) (simp add: add.assoc)
  ultimately show ?case by (simp add: add.assoc)
qed

lemma products_num:
  assumes "length ss = length ws" and "\<And>i. i < length ss \<Longrightarrow> ss ! i * ws ! i < 2 ^ 53"
  shows "map (\<lambda>(i, score). case js_get (map natNumber ws) i of None \<Rightarrow> NaN | Some w \<Rightarrow> js_mul score w)
             (enumerate 0 (map natNumber ss))
         = map natNumber (map (\<lambda>(s, w). s * w) (zip ss ws))"
  using assms by (intro nth_equalityI) (simp_all add: js_get_def nth_enumerate_eq js_mul_num)

lemma sum_products_le:
  "length ss = length ws \<Longrightarrow> \<forall>s \<in> set ss. s \<le> (c::nat) \<Longrightarrow>
   sum_list (map (\<lambda>(s, w). s * w) (zip ss ws)) \<le> c * sum_list ws"
proof (induction ss ws rule: list_induct2)
  case Nil
  then show ?case by simp
next
  case (Cons s ss w ws)
  from Cons.prems have "s \<le> c" by simp
  then have "s * w \<le> c * w" by simp
  moreover have "sum_list (map (\<lambda>(s, w). s * w) (zip ss ws)) \<le> c * sum_list ws"
    using Cons.IH Cons.prems by simp
  ultimately have "s * w + sum_list (map (\<lambda>(s, w). s * w) (zip ss ws)) \<le> c * w + c * sum_list ws"
    by (rule add_mono)
  then show ?case by (simp add: distrib_left)
qed

lemma weighted_mean_nat:
  assumes "length ss = length ws"
  shows "weighted_mean (map rat_of_nat ss) (map rat_of_nat ws)
         = rat_of_nat (sum_list (map (\<lambda>(s, w). s * w) (zip ss ws))) / rat_of_nat (sum_list ws)"
proof -
  have "rat_of_nat (sum_list (map (\<lambda>(s, w). s * w) (zip ss ws)))
        = (\<Sum>i<length ss. rat_of_nat (ss ! i) * rat_of_nat (ws ! i))"
    using assms by (simp add: sum_list_sum_nth atLeast0LessThan)
  moreover have "rat_of_nat (sum_list ws) = (\<Sum>i<length ws. rat_of_nat (ws ! i))"
    by (simp add: sum_list_sum_nth atLeast0LessThan)
  ultimately show ?thesis
    unfolding weighted_mean_def using assms by simp
qed

lemma roundHalfEven_mono_int:
  "rat_of_int k \<le> n \<Longrightarrow> k \<le> roundHalfEven n" "n \<le> rat_of_int k \<Longrightarrow> roundHalfEven n \<le> k"
proof -
  have e: "\<bar>rat_of_int (roundHalfEven n) - n\<bar> \<le> 1 / 2" by (rule roundHalfEven_error)
  then have e': "- (1 / 2) \<le> rat_of_int (roundHalfEven n) - n" "rat_of_int (roundHalfEven n) - n \<le> 1 / 2"
    by (simp_all only: abs_bounds)
  {
    assume "rat_of_int k \<le> n"
    then have "rat_of_int k - 1 < rat_of_int (roundHalfEven n)" using e' by linarith
    then have "rat_of_int (k - 1) < rat_of_int (roundHalfEven n)" by simp
    then have "k - 1 < roundHalfEven n" by (simp only: of_int_less_iff)
    then show "k \<le> roundHalfEven n" by simp
  }
  {
    assume "n \<le> rat_of_int k"
    then have "rat_of_int (roundHalfEven n) < rat_of_int k + 1" using e' by linarith
    then have "rat_of_int (roundHalfEven n) < rat_of_int (k + 1)" by simp
    then have "roundHalfEven n < k + 1" by (simp only: of_int_less_iff)
    then show "roundHalfEven n \<le> k" by simp
  }
qed

text \<open>The rounded value overflows exactly when it reaches \<open>2 ^ 1024\<close>.\<close>

lemma roundToDouble_overflow:
  assumes m: "0 < m"
  defines "e \<equiv> max (ilog2 m) (- 1022)"
  defines "q \<equiv> (2::rat) powi (e - 52)"
  defines "r \<equiv> roundHalfEven (m / q)"
  shows "(1024 \<le> e \<or> (e = 1023 \<and> r = 2 ^ 53)) \<longleftrightarrow> 2 ^ 1024 \<le> rat_of_int r * q"
proof -
  have q: "0 < q" unfolding q_def by (rule powi_two_pos)
  have qe: "q * 2 ^ 52 = 2 powi e"
    unfolding q_def by (simp add: powi_two_diff)
  have le: "ilog2 m \<le> e" unfolding e_def by simp
  \<comment> \<open>the scaled value lies below \<open>2 ^ 53\<close>, and at or above \<open>2 ^ 52\<close> when the exponent is not clamped\<close>
  have "m < 2 powi (ilog2 m + 1)" by (rule ilog2_bounds(2)[OF m])
  also have "\<dots> \<le> 2 powi (e + 1)" using le by (intro powi_two_mono) simp
  also have "\<dots> = 2 * 2 powi e" by (rule powi_two_Suc)
  finally have "m < q * 2 ^ 53" unfolding qe[symmetric] by simp
  then have "m / q < 2 ^ 53" using q by (simp add: field_simps)
  then have "m / q \<le> rat_of_int (2 ^ 53)" by simp
  then have rhi: "r \<le> 2 ^ 53" unfolding r_def by (rule roundHalfEven_mono_int(2))
  have rlo: "2 ^ 52 \<le> r" if "e = ilog2 m"
  proof -
    have "q * 2 ^ 52 \<le> m" unfolding qe that by (rule ilog2_bounds(1)[OF m])
    then have "2 ^ 52 \<le> m / q" using q by (simp add: field_simps)
    then have "rat_of_int (2 ^ 52) \<le> m / q" by simp
    then show ?thesis unfolding r_def by (rule roundHalfEven_mono_int(1))
  qed
  have y: "rat_of_int r * q \<le> 2 * 2 powi e"
  proof -
    have "rat_of_int r \<le> rat_of_int (2 ^ 53)" using rhi by (simp only: of_int_le_iff)
    then have "rat_of_int r * q \<le> 2 ^ 53 * q" using q by simp
    then show ?thesis unfolding qe[symmetric] by simp
  qed
  have p1024: "(2::rat) powi 1024 = 2 ^ 1024" by (simp add: power_int_def)
  show ?thesis
  proof (cases "1024 \<le> e")
    case True
    then have eq: "e = ilog2 m" unfolding e_def by simp
    have "rat_of_int (2 ^ 52) \<le> rat_of_int r" using rlo[OF eq] by (simp only: of_int_le_iff)
    then have "2 ^ 52 * q \<le> rat_of_int r * q" using q by simp
    then have "2 powi e \<le> rat_of_int r * q" unfolding qe[symmetric] by (simp add: mult.commute)
    moreover have "(2::rat) powi 1024 \<le> 2 powi e" using True by (rule powi_two_mono)
    ultimately show ?thesis using True p1024 by simp
  next
    case False
    show ?thesis
    proof (cases "e = 1023")
      case True
      have "(2::rat) powi 1023 * 2 = 2 powi 1024"
        using powi_two_Suc[of 1023] by simp
      then have q2: "q * 2 ^ 53 = 2 ^ 1024" using qe unfolding True p1024[symmetric] by simp
      have "2 ^ 1024 \<le> rat_of_int r * q \<longleftrightarrow> q * 2 ^ 53 \<le> q * rat_of_int r"
        unfolding q2 by (simp add: mult.commute)
      also have "\<dots> \<longleftrightarrow> (2::rat) ^ 53 \<le> rat_of_int r" using q by simp
      also have "\<dots> \<longleftrightarrow> rat_of_int (2 ^ 53) \<le> rat_of_int r" by simp
      also have "\<dots> \<longleftrightarrow> 2 ^ 53 \<le> r" by (simp only: of_int_le_iff)
      also have "\<dots> \<longleftrightarrow> r = 2 ^ 53" using rhi by auto
      finally show ?thesis using True by simp
    next
      case ne: False
      with False have "e + 1 \<le> 1023" by simp
      then have "(2::rat) powi (e + 1) \<le> 2 powi 1023" by (rule powi_two_mono)
      moreover have "(2::rat) powi 1023 < 2 powi 1024" by (rule powi_two_strict_mono) simp
      ultimately have "rat_of_int r * q < 2 ^ 1024"
        using y unfolding powi_two_Suc p1024 by linarith
      then show ?thesis using False ne by simp
    qed
  qed
qed

text \<open>
  The model on known values: \<open>0.1 + 0.2\<close> is \<open>0.30000000000000004\<close> and not the
  number that \<open>0.3\<close> denotes; \<open>2 ^ 53 + 1\<close> is a tie and rounds to the even
  \<open>2 ^ 53\<close>; \<open>Math.round(-0.5)\<close> is \<open>-0\<close> and \<open>Math.round(2.5)\<close> is \<open>3\<close>; and for the
  single score \<open>0.35\<close>, a number just below \<open>35/100\<close>, with the weight \<open>1\<close> the
  product with ten rounds up to \<open>3.5\<close>, so that the overall score is \<open>0.4\<close>.
\<close>

lemma binary64_examples:
  "roundToDouble False (1 / 10) = Num False (3602879701896397 / 36028797018963968)"
  "js_add (roundToDouble False (1 / 10)) (roundToDouble False (2 / 10))
   = Num False (1351079888211149 / 4503599627370496)"
  "roundToDouble False (3 / 10) = Num False (5404319552844595 / 18014398509481984)"
  "roundToDouble False (2 ^ 53 + 1) = Num False (2 ^ 53)"
  "roundToDouble False (2 ^ 53 + 3) = Num False (2 ^ 53 + 4)"
  "js_round (Num True (1 / 2)) = Num True 0"
  "js_round (Num False (5 / 2)) = Num False 3"
  "calculateOverallScore [roundToDouble False (35 / 100)] [natNumber 1] = roundToDouble False (4 / 10)"
  by code_simp+

subsection \<open>Aggregation\<close>

text \<open>
  On whole-number scores from 0 to 100 and whole-number weights with a total in
  \<open>(0, 2 ^ 30]\<close>, the products and both sums are exact; only the division by the total
  weight, the multiplication by ten and the final division by ten round. The quotient
  \<open>S / T\<close> is either a multiple of \<open>1/20\<close>, which the two roundings carry to the exact
  \<open>10 * S / T\<close> (lemma \<open>tenth_times_ten\<close>), or it lies at least \<open>1 / (20 * T)\<close> away
  from every tie of \<open>Math.round\<close>, farther than the two roundings move it (lemma
  \<open>mean_rounding_gap\<close>). So \<open>Math.round\<close> sees the integer that exact arithmetic gives.
\<close>

lemma Math_round_bounds:
  "of_int (Math_round x) \<le> x + 1 / 2" "x - 1 / 2 < of_int (Math_round x)"
  unfolding Math_round_def by linarith+

lemma calculateOverallScore_nat:
  fixes ss ws :: "nat list"
  assumes len: "length ss = length ws" and sc: "\<forall>s \<in> set ss. s \<le> 100"
    and pos: "0 < sum_list ws" and bnd: "sum_list ws \<le> 2 ^ 30"
  shows "calculateOverallScore (map natNumber ss) (map natNumber ws)
         = roundToDouble False
             (of_int (Math_round (weighted_mean (map rat_of_nat ss) (map rat_of_nat ws) * 10)) / 10)"
proof -
  define T where "T = sum_list ws"
  define S where "S = sum_list (map (\<lambda>(s, w). s * w) (zip ss ws))"
  have T: "0 < T" "T \<le> 2 ^ 30" unfolding T_def using pos bnd by simp_all
  have S: "S \<le> 100 * T" unfolding S_def T_def using len sc by (rule sum_products_le)
  have "(100::nat) * 2 ^ 30 < 2 ^ 53" by simp
  then have S53: "S < 2 ^ 53" and T53: "T < 2 ^ 53" using S T by linarith+
  have total: "foldl (\<lambda>sum w. js_add sum w) (Num False 0) (map natNumber ws) = natNumber T"
    using foldl_js_add_num[of 0 ws] T53 unfolding T_def by (simp add: natNumber_def)
  have prod: "\<And>i. i < length ss \<Longrightarrow> ss ! i * ws ! i < 2 ^ 53"
  proof -
    fix i assume i: "i < length ss"
    then have "ss ! i \<le> 100" using sc by simp
    moreover have "ws ! i \<le> T"
      unfolding T_def using i len by (simp add: member_le_sum_list)
    ultimately have "ss ! i * ws ! i \<le> 100 * T" by (rule mult_le_mono)
    with T \<open>(100::nat) * 2 ^ 30 < 2 ^ 53\<close> show "ss ! i * ws ! i < 2 ^ 53" by linarith
  qed
  have p: "map (\<lambda>(i, score). case js_get (map natNumber ws) i of None \<Rightarrow> NaN | Some w \<Rightarrow> js_mul score w)
               (enumerate 0 (map natNumber ss))
           = map natNumber (map (\<lambda>(s, w). s * w) (zip ss ws))"
    using len prod by (rule products_num)
  have "foldl (\<lambda>sum x. js_add sum x) (natNumber 0) (map natNumber (map (\<lambda>(s, w). s * w) (zip ss ws)))
        = natNumber (0 + S)"
    unfolding S_def using S53 unfolding S_def by (intro foldl_js_add_num) simp
  then have sum: "foldl (\<lambda>sum x. js_add sum x) (Num False 0)
               (map (\<lambda>(i, score). case js_get (map natNumber ws) i of None \<Rightarrow> NaN | Some w \<Rightarrow> js_mul score w)
                    (enumerate 0 (map natNumber ss))) = natNumber S"
    unfolding p by (simp add: natNumber_def)
  have ne: "\<not> js_strictEq (natNumber T) (Num False 0)"
    using T by (simp add: natNumber_def numval_def)
  obtain a b where a: "roundToDouble False (rat_of_nat S / rat_of_nat T) = Num False a"
    and b: "roundToDouble False (a * 10) = Num False b"
    and k: "\<lfloor>b + 1 / 2\<rfloor> = Math_round (rat_of_nat S / rat_of_nat T * 10)"
    using mean_rounding[OF T S] by blast
  define K where "K = Math_round (rat_of_nat S / rat_of_nat T * 10)"
  have K0: "0 \<le> K" unfolding K_def Math_round_def by simp
  have raw: "js_div (natNumber S) (natNumber T) = Num False a"
    using T a by (simp add: natNumber_def)
  have mul: "js_mul (Num False a) (Num False 10) = Num False b"
    using b by simp
  have rnd: "js_round (Num False b) = Num False (rat_of_int K)"
    using k K0 unfolding K_def[symmetric] by (simp add: numval_def Let_def)
  have fin: "js_div (Num False (rat_of_int K)) (Num False 10) = roundToDouble False (rat_of_int K / 10)"
    by simp
  have "calculateOverallScore (map natNumber ss) (map natNumber ws) = roundToDouble False (rat_of_int K / 10)"
    unfolding calculateOverallScore_def total sum Let_def using ne raw mul rnd fin by simp
  then show ?thesis
    unfolding K_def S_def T_def weighted_mean_nat[OF len] .
qed

text \<open>Finite weights that are not below zero and sum to zero are all zeros, and so is their computed sum.\<close>

lemma foldl_js_add_zeros:
  "list_all finiteNonNegative ws \<Longrightarrow> sum_list (map numval ws) = 0 \<Longrightarrow>
   foldl (\<lambda>sum w. js_add sum w) (Num False 0) ws = Num False 0"
proof (induction ws)
  case Nil
  then show ?case by simp
next
  case (Cons w ws)
  from Cons.prems(1) have nn: "\<forall>x \<in> set (w # ws). 0 \<le> numval x"
    by (auto simp: list_all_iff finiteNonNegative_def numval_def split: number.splits)
  then have "\<forall>x \<in> set (map numval (w # ws)). 0 \<le> x" by simp
  with Cons.prems(2) have z: "\<forall>x \<in> set (map numval (w # ws)). x = 0"
    by (simp only: sum_list_nonneg_eq_0_iff)
  then have w0: "numval w = 0" and z': "\<forall>x \<in> set ws. numval x = 0"
    by simp_all
  have s0: "sum_list (map numval ws) = 0"
    using z' by (induction ws) simp_all
  from Cons.prems(1) w0 obtain s where w: "w = Num s 0"
    by (cases w) (auto simp: finiteNonNegative_def numval_def split: if_splits)
  have "js_add (Num False 0) w = Num False 0"
    unfolding w by (simp add: numval_def)
  moreover have "foldl (\<lambda>sum w. js_add sum w) (Num False 0) ws = Num False 0"
    using Cons.prems(1) s0 by (intro Cons.IH) simp_all
  ultimately show ?case by simp
qed

text \<open>
  Claim C1, as stated, fails: the function adds and divides in binary64, and its result
  need not be the weighted mean rounded to one decimal place. For the scores
  \<open>[2 ^ 53, 1, - 2 ^ 53]\<close> and the weights \<open>[1, 1, 1]\<close>, all numbers of binary64, of
  equal length and with the positive total weight 3, the sum of the products loses the
  \<open>1\<close>: the function returns \<open>0\<close>, where the weighted mean is \<open>1/3\<close> and its
  rounding to one decimal place is \<open>0.3\<close>.
\<close>

theorem calculateOverallScore_weighted_mean_counterexample:
  "list_all isDouble [Num False (2 ^ 53), Num False 1, Num True (2 ^ 53)]
   \<and> length [Num False (2 ^ 53), Num False 1, Num True (2 ^ 53)]
       = length [Num False 1, Num False 1, Num False 1]
   \<and> 0 < sum_list (map numval [Num False 1, Num False 1, Num False 1])
   \<and> calculateOverallScore [Num False (2 ^ 53), Num False 1, Num True (2 ^ 53)]
         [Num False 1, Num False 1, Num False 1] = Num False 0
   \<and> weighted_mean (map numval [Num False (2 ^ 53), Num False 1, Num True (2 ^ 53)])
         (map numval [Num False 1, Num False 1, Num False 1]) = 1 / 3
   \<and> Math_round (1 / 3 * 10) = 3
   \<and> roundToDouble False (3 / 10) \<noteq> Num False 0"
proof -
  have a: "list_all isDouble [Num False (2 ^ 53), Num False 1, Num True (2 ^ 53)]"
    by code_simp
  have b: "calculateOverallScore [Num False (2 ^ 53), Num False 1, Num True (2 ^ 53)]
         [Num False 1, Num False 1, Num False 1] = Num False 0"
    by code_simp
  have c: "weighted_mean (map numval [Num False (2 ^ 53), Num False 1, Num True (2 ^ 53)])
         (map numval [Num False 1, Num False 1, Num False 1]) = 1 / 3"
    by (simp add: weighted_mean_def numval_def lessThan_Suc numeral_3_eq_3)
  have d: "Math_round (1 / 3 * 10) = 3"
    unfolding Math_round_def by simp linarith
  have e: "roundToDouble False (3 / 10) \<noteq> Num False 0"
    by code_simp
  have f: "0 < sum_list (map numval [Num False 1, Num False 1, Num False 1])"
    by (simp add: numval_def)
  have g: "length [Num False (2 ^ 53), Num False 1, Num True (2 ^ 53)]
       = length [Num False 1, Num False 1, Num False 1]"
    by simp
  from a g f b c d e show ?thesis by (intro conjI)
qed

text \<open>
  Claim C1, amended. For score and weight vectors of equal length, the scores whole
  numbers from 0 to 100 and the weights whole numbers that are not negative, with a
  total weight that is positive and at most \<open>2 ^ 30\<close> (the table passes percentages,
  six of each), \<open>calculateOverallScore\<close> returns the number of binary64 nearest to
  \<open>k / 10\<close>, where \<open>k / 10\<close> is the weighted mean rounded to one decimal place: the
  multiple of \<open>1/10\<close> nearest to the mean, a tie going up. In particular
  \<open>calculateOverallScore([80, 60], [50, 50])\<close> is \<open>70\<close>.
\<close>

theorem calculateOverallScore_percent_scores:
  fixes ss ws :: "nat list"
  assumes "length ss = length ws" and "\<forall>s \<in> set ss. s \<le> 100"
    and "0 < sum_list ws" and "sum_list ws \<le> 2 ^ 30"
  shows "(\<exists>k::int. calculateOverallScore (map natNumber ss) (map natNumber ws) = roundToDouble False (of_int k / 10)
            \<and> weighted_mean (map rat_of_nat ss) (map rat_of_nat ws) - 1 / 20 < of_int k / 10
            \<and> of_int k / 10 \<le> weighted_mean (map rat_of_nat ss) (map rat_of_nat ws) + 1 / 20)
         \<and> calculateOverallScore [natNumber 80, natNumber 60] [natNumber 50, natNumber 50] = natNumber 70"
proof
  let ?m = "weighted_mean (map rat_of_nat ss) (map rat_of_nat ws)"
  let ?k = "Math_round (?m * 10)"
  have eq: "calculateOverallScore (map natNumber ss) (map natNumber ws) = roundToDouble False (of_int ?k / 10)"
    using assms by (rule calculateOverallScore_nat)
  have "?m - 1 / 20 < of_int ?k / 10" "of_int ?k / 10 \<le> ?m + 1 / 20"
    using Math_round_bounds[of "?m * 10"] by simp_all
  with eq show "\<exists>k::int. calculateOverallScore (map natNumber ss) (map natNumber ws) = roundToDouble False (of_int k / 10)
            \<and> ?m - 1 / 20 < of_int k / 10 \<and> of_int k / 10 \<le> ?m + 1 / 20"
    by blast
next
  show "calculateOverallScore [natNumber 80, natNumber 60] [natNumber 50, natNumber 50] = natNumber 70"
    by code_simp
qed

theorem calculateOverallScore_percent_scores_witness:
  "length [80, 61 :: nat] = length [1, 2 :: nat] \<and> list_all (\<lambda>s. s \<le> 100) [80, 61 :: nat]
   \<and> 0 < sum_list [1, 2 :: nat] \<and> sum_list [1, 2 :: nat] \<le> 2 ^ 30
   \<and> (\<exists>k::int. calculateOverallScore (map natNumber [80, 61]) (map natNumber [1, 2]) = roundToDouble False (of_int k / 10)
            \<and> weighted_mean (map rat_of_nat [80, 61]) (map rat_of_nat [1, 2]) - 1 / 20 < of_int k / 10
            \<and> of_int k / 10 \<le> weighted_mean (map rat_of_nat [80, 61]) (map rat_of_nat [1, 2]) + 1 / 20)"
  using calculateOverallScore_percent_scores[of "[80, 61]" "[1, 2]"] by simp

text \<open>
  Claim C2, as stated, fails when the weights sum to zero but their sum as the function
  computes it, from the left and rounding after every addition, does not. The weights
  \<open>[2 ^ 53, 1, - 2 ^ 53, - 1]\<close> are numbers of binary64 with the exact sum 0; the
  function computes the total \<open>-1\<close>, passes the guard, and returns \<open>1\<close> for the scores
  \<open>[1, 1, 1, 1]\<close>.
\<close>

theorem calculateOverallScore_zero_sum_counterexample:
  "list_all isDouble [Num False (2 ^ 53), Num False 1, Num True (2 ^ 53), Num True 1]
   \<and> sum_list (map numval [Num False (2 ^ 53), Num False 1, Num True (2 ^ 53), Num True 1]) = 0
   \<and> calculateOverallScore [natNumber 1, natNumber 1, natNumber 1, natNumber 1]
        [Num False (2 ^ 53), Num False 1, Num True (2 ^ 53), Num True 1] = Num False 1
   \<and> \<not> js_strictEq (Num False 1) (Num False 0)"
proof -
  have a: "list_all isDouble [Num False (2 ^ 53), Num False 1, Num True (2 ^ 53), Num True 1]"
    by code_simp
  have b: "sum_list (map numval [Num False (2 ^ 53), Num False 1, Num True (2 ^ 53), Num True 1]) = 0"
    by (simp add: numval_def)
  have c: "calculateOverallScore [natNumber 1, natNumber 1, natNumber 1, natNumber 1]
        [Num False (2 ^ 53), Num False 1, Num True (2 ^ 53), Num True 1] = Num False 1"
    by code_simp
  have d: "\<not> js_strictEq (Num False 1) (Num False 0)"
    by (simp add: numval_def)
  from a b c d show ?thesis by (intro conjI)
qed

text \<open>
  Claim C2, amended. When the total weight as the function computes it (the weights
  added from the left in binary64) equals zero, and in particular when the weights are
  finite, not below zero and sum to zero, \<open>calculateOverallScore\<close> returns \<open>0\<close>, for
  any scores: the guard returns before the division by the total weight.
\<close>

theorem calculateOverallScore_zero_total:
  assumes "js_strictEq (foldl (\<lambda>sum w. js_add sum w) (Num False 0) weights) (Num False 0)
           \<or> (list_all finiteNonNegative weights \<and> sum_list (map numval weights) = 0)"
  shows "calculateOverallScore sectionScores weights = Num False 0"
proof -
  have "js_strictEq (foldl (\<lambda>sum w. js_add sum w) (Num False 0) weights) (Num False 0)"
    using assms foldl_js_add_zeros[of weights] by (auto simp: numval_def)
  then show ?thesis unfolding calculateOverallScore_def by simp
qed

theorem calculateOverallScore_zero_total_witness:
  "list_all finiteNonNegative [natNumber 0, Num True 0, natNumber 0]
   \<and> sum_list (map numval [natNumber 0, Num True 0, natNumber 0]) = 0
   \<and> calculateOverallScore [natNumber 80, natNumber 60, natNumber 70] [natNumber 0, Num True 0, natNumber 0] = Num False 0
   \<and> js_strictEq (foldl (\<lambda>sum w. js_add sum w) (Num False 0) [natNumber 5, Num True 5]) (Num False 0)
   \<and> calculateOverallScore [natNumber 80, natNumber 60] [natNumber 5, Num True 5] = Num False 0"
proof -
  have h: "list_all finiteNonNegative [natNumber 0, Num True 0, natNumber 0]"
    "sum_list (map numval [natNumber 0, Num True 0, natNumber 0]) = 0"
    by (simp_all add: finiteNonNegative_def natNumber_def numval_def)
  have g: "js_strictEq (foldl (\<lambda>sum w. js_add sum w) (Num False 0) [natNumber 5, Num True 5]) (Num False 0)"
    by code_simp
  from calculateOverallScore_zero_total[of "[natNumber 0, Num True 0, natNumber 0]" "[natNumber 80, natNumber 60, natNumber 70]"]
    calculateOverallScore_zero_total[of "[natNumber 5, Num True 5]" "[natNumber 80, natNumber 60]"] h g
  show ?thesis by simp
qed

subsection \<open>Criteria tree store\<close>

lemma map_unchanged: "(\<And>x. x \<in> set xs \<Longrightarrow> f x = x) \<Longrightarrow> map f xs = xs"
  by (induction xs) simp_all

lemma nodeIds_row: "row \<in> set data \<Longrightarrow> row_id row \<in> set (nodeIds data)"
  unfolding nodeIds_def by auto

lemma nodeIds_sub:
  "row \<in> set data \<Longrightarrow> sub row = Some subs \<Longrightarrow> sb \<in> set subs \<Longrightarrow> sub_id sb \<in> set (nodeIds data)"
  unfolding nodeIds_def by force

lemma nodeIds_Cons:
  "nodeIds (r # rs) = (row_id r # (case sub r of None \<Rightarrow> [] | Some subs \<Rightarrow> map sub_id subs)) @ nodeIds rs"
  by (simp add: nodeIds_def)

lemma nodeIds_exampleData: "nodeIds exampleData = [''5.1'', ''5.1.1'', ''5.1.2'', ''5.2'', ''5.2.1'']"
  by (simp add: nodeIds_def exampleData_def exampleSection_def exampleSection2_def)

text \<open>
  Claim C9. When the id is the id of no row and of no sub-criterion of a row,
  \<open>handleWeightChange\<close> returns the tree it was given: every row and every
  sub-criterion is rebuilt with the fields it had.
\<close>

theorem handleWeightChange_unknown_id:
  assumes "rowId \<notin> set (nodeIds data)"
  shows "handleWeightChange data rowId val = data"
  unfolding handleWeightChange_def
proof (rule map_unchanged)
  fix row assume row: "row \<in> set data"
  then have neq: "row_id row \<noteq> rowId"
    using assms nodeIds_row by blast
  show "(if row_id row = rowId then row\<lparr>weight := val\<rparr>
         else (case sub row of
                 Some subs \<Rightarrow>
                   row\<lparr>sub := Some (map (\<lambda>subRow. if sub_id subRow = rowId
                                                  then subRow\<lparr>sub_weight := val\<rparr> else subRow) subs)\<rparr>
               | None \<Rightarrow> row)) = row"
  proof (cases "sub row")
    case None
    with neq show ?thesis by simp
  next
    case (Some subs)
    have "map (\<lambda>subRow. if sub_id subRow = rowId then subRow\<lparr>sub_weight := val\<rparr> else subRow) subs = subs"
    proof (rule map_unchanged)
      fix sb assume "sb \<in> set subs"
      then have "sub_id sb \<noteq> rowId"
        using assms nodeIds_sub[OF row Some] by blast
      then show "(if sub_id sb = rowId then sb\<lparr>sub_weight := val\<rparr> else sb) = sb" by simp
    qed
    with neq Some show ?thesis by simp
  qed
qed

theorem handleWeightChange_unknown_id_witness:
  "''9.9'' \<notin> set (nodeIds exampleData) \<and> handleWeightChange exampleData ''9.9'' ''40%'' = exampleData"
proof -
  have "''9.9'' \<notin> set (nodeIds exampleData)"
    unfolding nodeIds_exampleData by simp
  then show ?thesis
    using handleWeightChange_unknown_id[of "''9.9''" exampleData "''40%''"] by simp
qed

lemma no_child_with_parent_id:
  assumes "distinct (nodeIds data)" "row \<in> set data" "sub row = Some subs" "sb \<in> set subs"
  shows "sub_id sb \<noteq> row_id row"
  using assms
proof (induction data)
  case Nil
  then show ?case by simp
next
  case (Cons r rs)
  from Cons.prems(1)
  have d: "distinct (row_id r # (case sub r of None \<Rightarrow> [] | Some subs \<Rightarrow> map sub_id subs))"
    and ds: "distinct (nodeIds rs)"
    unfolding nodeIds_Cons by simp_all
  show ?case
  proof (cases "row = r")
    case True
    with d Cons.prems(3) have "row_id row \<notin> set (map sub_id subs)" by simp
    with Cons.prems(4) show ?thesis by (metis image_eqI set_map)
  next
    case False
    with Cons.prems(2) have "row \<in> set rs" by simp
    with Cons.IH ds Cons.prems(3,4) show ?thesis by blast
  qed
qed

text \<open>
  Claim C10. In a tree whose node ids are all different, \<open>handleWeightChange\<close> with
  the id of a node of the tree changes the weight of the node with that id and nothing
  else: the rows keep their ids, titles and scores, and their weights but for the row
  with the id; the sub-criteria of every row keep their ids, texts and scores, and
  their weights but for the sub-criterion with the id; the weight with the id becomes
  the new value.
\<close>

theorem handleWeightChange_frame:
  assumes "distinct (nodeIds data)" and "rowId \<in> set (nodeIds data)"
  shows "map row_id (handleWeightChange data rowId val) = map row_id data
       \<and> map title (handleWeightChange data rowId val) = map title data
       \<and> map scores (handleWeightChange data rowId val) = map scores data
       \<and> map weight (handleWeightChange data rowId val)
           = map (\<lambda>row. if row_id row = rowId then val else weight row) data
       \<and> map (\<lambda>row. map_option (map sub_id) (sub row)) (handleWeightChange data rowId val)
           = map (\<lambda>row. map_option (map sub_id) (sub row)) data
       \<and> map (\<lambda>row. map_option (map sub_text) (sub row)) (handleWeightChange data rowId val)
           = map (\<lambda>row. map_option (map sub_text) (sub row)) data
       \<and> map (\<lambda>row. map_option (map sub_scores) (sub row)) (handleWeightChange data rowId val)
           = map (\<lambda>row. map_option (map sub_scores) (sub row)) data
       \<and> map (\<lambda>row. map_option (map sub_weight) (sub row)) (handleWeightChange data rowId val)
           = map (\<lambda>row. map_option (map (\<lambda>sb. if sub_id sb = rowId then val else sub_weight sb)) (sub row)) data"
proof -
  have other: "\<And>f. (\<And>sb. f (sb\<lparr>sub_weight := val\<rparr>) = f sb) \<Longrightarrow>
      map (\<lambda>row. map_option (map f) (sub row)) (handleWeightChange data rowId val)
      = map (\<lambda>row. map_option (map f) (sub row)) data"
    unfolding handleWeightChange_def
    by (auto simp: comp_def split: option.splits intro!: map_cong)
  have w: "map (\<lambda>row. map_option (map sub_weight) (sub row)) (handleWeightChange data rowId val)
           = map (\<lambda>row. map_option (map (\<lambda>sb. if sub_id sb = rowId then val else sub_weight sb)) (sub row)) data"
    unfolding handleWeightChange_def map_map comp_def
  proof (rule map_cong[OF refl])
    fix row assume row: "row \<in> set data"
    show "map_option (map sub_weight) (sub (if row_id row = rowId then row\<lparr>weight := val\<rparr>
             else case sub row of None \<Rightarrow> row
                  | Some subs \<Rightarrow> row\<lparr>sub := Some (map (\<lambda>subRow. if sub_id subRow = rowId
                                   then subRow\<lparr>sub_weight := val\<rparr> else subRow) subs)\<rparr>))
          = map_option (map (\<lambda>sb. if sub_id sb = rowId then val else sub_weight sb)) (sub row)"
    proof (cases "row_id row = rowId")
      case True
      then have "\<And>subs sb. sub row = Some subs \<Longrightarrow> sb \<in> set subs \<Longrightarrow> sub_id sb \<noteq> rowId"
        using no_child_with_parent_id[OF assms(1) row] by metis
      with True show ?thesis by (cases "sub row") (auto intro!: map_cong)
    next
      case False
      then show ?thesis by (cases "sub row") (auto intro!: map_cong)
    qed
  qed
  have top: "map row_id (handleWeightChange data rowId val) = map row_id data"
    "map title (handleWeightChange data rowId val) = map title data"
    "map scores (handleWeightChange data rowId val) = map scores data"
    "map weight (handleWeightChange data rowId val)
           = map (\<lambda>row. if row_id row = rowId then val else weight row) data"
    unfolding handleWeightChange_def by (auto split: option.splits)
  from top other[of sub_id] other[of sub_text] other[of sub_scores] w show ?thesis by simp
qed

theorem handleWeightChange_frame_witness:
  "distinct (nodeIds exampleData) \<and> ''5.1.1'' \<in> set (nodeIds exampleData)
   \<and> map row_id (handleWeightChange exampleData ''5.1.1'' ''40%'') = [''5.1'', ''5.2'']
   \<and> map title (handleWeightChange exampleData ''5.1.1'' ''40%'') = map title exampleData
   \<and> map scores (handleWeightChange exampleData ''5.1.1'' ''40%'') = map scores exampleData
   \<and> map weight (handleWeightChange exampleData ''5.1.1'' ''40%'') = [''20%'', ''20%'']
   \<and> map (\<lambda>row. map_option (map sub_weight) (sub row)) (handleWeightChange exampleData ''5.1.1'' ''40%'')
       = [Some [''40%'', ''''], Some ['''']]"
proof -
  have h: "distinct (nodeIds exampleData)" "''5.1.1'' \<in> set (nodeIds exampleData)"
    unfolding nodeIds_exampleData by simp_all
  have e: "map row_id exampleData = [''5.1'', ''5.2'']"
    "map (\<lambda>row. if row_id row = ''5.1.1'' then ''40%'' else weight row) exampleData = [''20%'', ''20%'']"
    "map (\<lambda>row. map_option (map (\<lambda>sb. if sub_id sb = ''5.1.1'' then ''40%'' else sub_weight sb)) (sub row))
       exampleData = [Some [''40%'', ''''], Some ['''']]"
    by (simp_all add: exampleData_def exampleSection_def exampleSection2_def)
  from handleWeightChange_frame[OF h, of "''40%''"] h e show ?thesis by simp
qed

subsection \<open>Column order controller\<close>

lemma splice_delete_one:
  assumes "f < length xs"
  shows "splice xs (int f) 1 [] = removeAt f xs"
  using assms unfolding splice_def removeAt_def by (simp add: Let_def min_def)

lemma splice_insert_one:
  assumes "t \<le> length xs"
  shows "splice xs (int t) 0 [x] = insertAt t x xs"
  using assms unfolding splice_def insertAt_def by (simp add: Let_def min_def)

lemma length_removeAt: "f < length xs \<Longrightarrow> length (removeAt f xs) = length xs - 1"
  unfolding removeAt_def by simp

lemma length_insertAt: "length (insertAt t x xs) = Suc (length xs)"
  unfolding insertAt_def by simp

lemma insertAt_removeAt_same: "f < length xs \<Longrightarrow> insertAt f (xs ! f) (removeAt f xs) = xs"
  unfolding insertAt_def removeAt_def by (simp add: min_def id_take_nth_drop[symmetric])

lemma mset_removeAt: "f < length xs \<Longrightarrow> add_mset (xs ! f) (mset (removeAt f xs)) = mset xs"
proof -
  assume "f < length xs"
  then have "xs = take f xs @ xs ! f # drop (Suc f) xs"
    by (rule id_take_nth_drop)
  then have "mset xs = mset (take f xs @ xs ! f # drop (Suc f) xs)"
    by simp
  then show ?thesis
    unfolding removeAt_def by simp
qed

lemma mset_insertAt: "mset (insertAt t x xs) = add_mset x (mset xs)"
proof -
  have "mset (take t xs) + mset (drop t xs) = mset xs"
    by (metis append_take_drop_id mset_append)
  then show ?thesis
    unfolding insertAt_def by simp
qed

lemma js_at_nat: "f < length xs \<Longrightarrow> js_at xs (int f) = xs ! f"
  by (simp add: js_at_def)

lemma moveColumn_in_suffix:
  assumes "int (length pinnedColumnIds) \<le> dragIndex" "dragIndex < int (length columnOrder)"
      and "int (length pinnedColumnIds) \<le> hoverIndex" "hoverIndex < int (length columnOrder)"
  shows "moveColumn columnOrder dragIndex hoverIndex
         = take (length pinnedColumnIds) columnOrder
           @ insertAt (nat hoverIndex - length pinnedColumnIds)
               (drop (length pinnedColumnIds) columnOrder ! (nat dragIndex - length pinnedColumnIds))
               (removeAt (nat dragIndex - length pinnedColumnIds) (drop (length pinnedColumnIds) columnOrder))"
proof -
  let ?p = "length pinnedColumnIds"
  let ?vendors = "drop ?p columnOrder"
  let ?f = "nat dragIndex - ?p" and ?t = "nat hoverIndex - ?p"
  have f: "dragIndex - int ?p = int ?f" and t: "hoverIndex - int ?p = int ?t"
    using assms by linarith+
  have fl: "?f < length ?vendors" and tl: "?t < length ?vendors"
    using assms by simp_all
  have get: "js_at ?vendors (int ?f) = ?vendors ! ?f"
    using fl by (rule js_at_nat)
  have del: "splice ?vendors (int ?f) 1 [] = removeAt ?f ?vendors"
    using fl by (rule splice_delete_one)
  have "?t \<le> length (removeAt ?f ?vendors)"
    using tl fl by (simp add: length_removeAt)
  then have ins: "splice (removeAt ?f ?vendors) (int ?t) 0 [?vendors ! ?f]
                  = insertAt ?t (?vendors ! ?f) (removeAt ?f ?vendors)"
    by (rule splice_insert_one)
  show ?thesis
    unfolding moveColumn_def Let_def f t get del ins ..
qed

lemma initialColumnOrder_eq:
  "initialColumnOrder = [Some ''title'', Some ''weight'', Some ''LangeTech'', Some ''Best Pacific'',
                         Some ''KMNM'', Some ''Bhilosa'', Some ''Tianhai Lace'']"
  by (simp add: initialColumnOrder_def allColumnIds_def pinnedColumnIds_def vendorColumnIds_def)

lemma length_pinnedColumnIds: "length pinnedColumnIds = 2"
  by (simp add: pinnedColumnIds_def)

text \<open>
  Claim C4. When the source and the destination index both lie in the reorderable
  suffix (from the length of the pinned prefix up to the length of the order),
  \<open>moveColumn\<close> removes the element at the source position of the suffix and inserts
  it at the destination position of the suffix. The pinned prefix and the length are
  unchanged, the order holds the same columns as before, and a move from an index to
  itself leaves the order as it was.
\<close>

theorem moveColumn_within_suffix:
  assumes "int (length pinnedColumnIds) \<le> dragIndex" "dragIndex < int (length columnOrder)"
      and "int (length pinnedColumnIds) \<le> hoverIndex" "hoverIndex < int (length columnOrder)"
  shows "moveColumn columnOrder dragIndex hoverIndex
         = take (length pinnedColumnIds) columnOrder
           @ insertAt (nat hoverIndex - length pinnedColumnIds)
               (drop (length pinnedColumnIds) columnOrder ! (nat dragIndex - length pinnedColumnIds))
               (removeAt (nat dragIndex - length pinnedColumnIds) (drop (length pinnedColumnIds) columnOrder))
       \<and> take (length pinnedColumnIds) (moveColumn columnOrder dragIndex hoverIndex)
           = take (length pinnedColumnIds) columnOrder
       \<and> length (moveColumn columnOrder dragIndex hoverIndex) = length columnOrder
       \<and> mset (moveColumn columnOrder dragIndex hoverIndex) = mset columnOrder
       \<and> moveColumn columnOrder dragIndex dragIndex = columnOrder"
proof -
  let ?p = "length pinnedColumnIds"
  let ?vendors = "drop ?p columnOrder"
  let ?f = "nat dragIndex - ?p" and ?t = "nat hoverIndex - ?p"
  let ?moved = "insertAt ?t (?vendors ! ?f) (removeAt ?f ?vendors)"
  have fl: "?f < length ?vendors"
    using assms by simp
  have pl: "?p \<le> length columnOrder"
    using assms by linarith
  have eq: "moveColumn columnOrder dragIndex hoverIndex = take ?p columnOrder @ ?moved"
    using assms by (rule moveColumn_in_suffix)
  have len: "length ?moved = length ?vendors"
    using fl by (simp add: length_insertAt length_removeAt)
  have ms: "mset ?moved = mset ?vendors"
    by (simp only: mset_insertAt mset_removeAt[OF fl])
  have pre: "take ?p (take ?p columnOrder @ ?moved) = take ?p columnOrder"
    using pl by simp
  have "length (take ?p columnOrder @ ?moved) = length columnOrder"
    using len pl by simp
  moreover have "mset (take ?p columnOrder @ ?moved) = mset columnOrder"
    using ms by (metis append_take_drop_id mset_append)
  moreover have "moveColumn columnOrder dragIndex dragIndex = columnOrder"
    by (simp only: moveColumn_in_suffix[OF assms(1,2) assms(1,2)] insertAt_removeAt_same[OF fl]
        append_take_drop_id)
  ultimately show ?thesis using eq pre by simp
qed

theorem moveColumn_within_suffix_witness:
  "int (length pinnedColumnIds) \<le> 4 \<and> 4 < int (length initialColumnOrder)
   \<and> int (length pinnedColumnIds) \<le> 2 \<and> 2 < int (length initialColumnOrder)
   \<and> moveColumn initialColumnOrder 4 2
       = [Some ''title'', Some ''weight'', Some ''KMNM'', Some ''LangeTech'', Some ''Best Pacific'',
          Some ''Bhilosa'', Some ''Tianhai Lace'']
   \<and> take (length pinnedColumnIds) (moveColumn initialColumnOrder 4 2) = [Some ''title'', Some ''weight'']
   \<and> length (moveColumn initialColumnOrder 4 2) = 7"
proof -
  have h: "int (length pinnedColumnIds) \<le> 4" "4 < int (length initialColumnOrder)"
    "int (length pinnedColumnIds) \<le> 2" "2 < int (length initialColumnOrder)"
    by (simp_all add: length_pinnedColumnIds initialColumnOrder_eq)
  from moveColumn_within_suffix[OF h] h show ?thesis
    by (simp add: length_pinnedColumnIds initialColumnOrder_eq insertAt_def removeAt_def)
qed

lemma pinned_not_draggable: "cid \<in> set pinnedColumnIds \<Longrightarrow> \<not> isDraggable cid"
  unfolding isDraggable_def pinnedColumnIds_def vendorColumnIds_def by auto

text \<open>
  Claim C5, as stated, fails: \<open>moveColumn\<close> checks neither index. Moving the vendor
  column at index 3 to the pinned index 0 puts it behind the vendor column that
  followed it, and moving from the pinned index 0 to index 3 deletes a vendor column
  and stores \<open>undefined\<close> in the order.
\<close>

theorem moveColumn_pinned_index_counterexample:
  "(0::int) < int (length pinnedColumnIds)
   \<and> moveColumn initialColumnOrder 3 0
       = [Some ''title'', Some ''weight'', Some ''LangeTech'', Some ''KMNM'', Some ''Best Pacific'',
          Some ''Bhilosa'', Some ''Tianhai Lace'']
   \<and> moveColumn initialColumnOrder 3 0 \<noteq> initialColumnOrder
   \<and> moveColumn initialColumnOrder 0 3
       = [Some ''title'', Some ''weight'', Some ''LangeTech'', None,
          Some ''Best Pacific'', Some ''KMNM'', Some ''Tianhai Lace'']
   \<and> moveColumn initialColumnOrder 0 3 \<noteq> initialColumnOrder"
  by code_simp

text \<open>
  Claim C5, amended. The pinned columns are protected by the header cells, the only
  callers of \<open>moveColumn\<close>. In an order whose pinned prefix holds the pinned column
  ids, for the header of a pinned slot (an index below the length of the pinned prefix):
  a hover over it returns before \<open>moveColumn\<close> is called, so the column order and the
  dragged item stay as they are, and no drag starts from it.
\<close>

theorem pinned_header_move_rejected:
  assumes "take (length pinnedColumnIds) columnOrder = map Some pinnedColumnIds"
      and "0 \<le> index" "index < int (length pinnedColumnIds)"
      and "js_at columnOrder index = Some cid"
  shows "hover cid index (columnOrder, item) = (columnOrder, item) \<and> beginDrag cid index = None"
proof -
  have "length (take (length pinnedColumnIds) columnOrder) = length pinnedColumnIds"
    unfolding assms(1) by simp
  then have len: "length pinnedColumnIds \<le> length columnOrder"
    by simp
  have "columnOrder ! nat index = take (length pinnedColumnIds) columnOrder ! nat index"
    using assms(2,3) by simp
  also have "\<dots> = Some (pinnedColumnIds ! nat index)"
    using assms(1,2,3) by simp
  finally have "js_at columnOrder index = Some (pinnedColumnIds ! nat index)"
    using assms(2,3) len unfolding js_at_def by simp
  with assms(4) have "cid = pinnedColumnIds ! nat index" by simp
  then have "cid \<in> set pinnedColumnIds"
    using assms(2,3) by simp
  then have "\<not> isDraggable cid" by (rule pinned_not_draggable)
  then show ?thesis unfolding hover_def beginDrag_def by simp
qed

theorem pinned_header_move_rejected_witness:
  "take (length pinnedColumnIds) initialColumnOrder = map Some pinnedColumnIds
   \<and> (0::int) \<le> 1 \<and> 1 < int (length pinnedColumnIds)
   \<and> js_at initialColumnOrder 1 = Some ''weight''
   \<and> hover ''weight'' 1 (initialColumnOrder, \<lparr>item_id = ''KMNM'', item_index = 4\<rparr>)
       = (initialColumnOrder, \<lparr>item_id = ''KMNM'', item_index = 4\<rparr>)
   \<and> beginDrag ''weight'' 1 = None"
proof -
  have h: "take (length pinnedColumnIds) initialColumnOrder = map Some pinnedColumnIds"
    "(0::int) \<le> 1" "1 < int (length pinnedColumnIds)"
    "js_at initialColumnOrder 1 = Some ''weight''"
    by (simp_all add: initialColumnOrder_def allColumnIds_def pinnedColumnIds_def js_at_def)
  from pinned_header_move_rejected[OF h, of "\<lparr>item_id = ''KMNM'', item_index = 4\<rparr>"] h
  show ?thesis by simp
qed

subsection \<open>Filter engine\<close>

lemma includes_str_sublist: "includes_str s t = sublist t s"
  by (induction s) (simp_all add: sublist_Cons_right)

text \<open>Looking a column up in \<open>columnsConfig\<close> gives the accessor declared for its id.\<close>

lemma find_column:
  "map_option accessor (find (\<lambda>c. col_id c = cid) (columnsConfig data)) = columnAccessor cid"
  unfolding columnsConfig_def columnAccessor_def by auto

lemma filterMatches_satisfies: "filterMatches data row flt = satisfies row flt"
proof (cases "find (\<lambda>c. col_id c = columnId flt) (columnsConfig data)")
  case None
  then have "columnAccessor (columnId flt) = None"
    using find_column[of "columnId flt" data] by simp
  with None show ?thesis unfolding filterMatches_def satisfies_def by simp
next
  case (Some col)
  then have "columnAccessor (columnId flt) = Some (accessor col)"
    using find_column[of "columnId flt" data] by simp
  with Some show ?thesis
    unfolding filterMatches_def satisfies_def caseInsensitiveSubstring_def
    by (simp add: includes_str_sublist)
qed

text \<open>
  Claim C6. The filtered data are the rows of the data, in their order, that satisfy
  every predicate of the filter list; so a row is in the result exactly when it is a
  row of the data and satisfies every predicate. A text predicate with no values is
  satisfied, and one with values is satisfied when one of them is a case-insensitive
  substring of the field that the accessor of its column reads from the row.
\<close>

theorem filteredData_all_predicates:
  "filteredData data filters = filter (\<lambda>row. \<forall>flt \<in> set filters. satisfies row flt) data
   \<and> (row \<in> set (filteredData data filters)
        \<longleftrightarrow> row \<in> set data \<and> (\<forall>flt \<in> set filters. satisfies row flt))"
  unfolding filteredData_def by (simp add: list_all_iff filterMatches_satisfies)

theorem filteredData_all_predicates_witness:
  "exampleSection2 \<in> set exampleData
   \<and> exampleSection2 \<in> set (filteredData exampleData [exampleTextFilter])
   \<and> satisfies exampleSection2 exampleTextFilter
   \<and> exampleSection \<in> set exampleData
   \<and> exampleSection \<notin> set (filteredData exampleData [exampleTextFilter])
   \<and> \<not> satisfies exampleSection exampleTextFilter"
proof -
  have res: "filteredData exampleData [exampleTextFilter] = [exampleSection2]"
    by code_simp
  have ne: "exampleSection \<noteq> exampleSection2"
    by (simp add: exampleSection_def exampleSection2_def)
  have mem: "exampleSection \<in> set exampleData" "exampleSection2 \<in> set exampleData"
    by (simp_all add: exampleData_def)
  have "satisfies exampleSection2 exampleTextFilter"
    using filteredData_all_predicates[of exampleData "[exampleTextFilter]" exampleSection2] res by simp
  moreover have "\<not> satisfies exampleSection exampleTextFilter"
    using filteredData_all_predicates[of exampleData "[exampleTextFilter]" exampleSection] res ne mem
    by simp
  ultimately show ?thesis using res ne mem by simp
qed

text \<open>
  Claim C7. A predicate of type \<open>option\<close> matches every row, whatever its values and
  the field of the row, and it excludes no row: the filtered data are the same with
  the predicate in the filter list and without it.
\<close>

theorem option_predicate_always_matches:
  assumes "filter_type flt = ''option''"
  shows "filterMatches data row flt
       \<and> filteredData data (fs1 @ flt # fs2) = filteredData data (fs1 @ fs2)"
proof -
  have m: "\<And>r. filterMatches data r flt"
    using assms unfolding filterMatches_def by (simp split: option.splits)
  then show ?thesis unfolding filteredData_def by simp
qed

theorem option_predicate_always_matches_witness:
  "filter_type exampleOptionFilter = ''option''
   \<and> filterMatches exampleData exampleSection exampleOptionFilter
   \<and> filteredData exampleData ([exampleTextFilter] @ exampleOptionFilter # [])
       = filteredData exampleData ([exampleTextFilter] @ [])"
proof -
  have h: "filter_type exampleOptionFilter = ''option''"
    by (simp add: exampleOptionFilter_def)
  from option_predicate_always_matches[OF h, of exampleData exampleSection "[exampleTextFilter]" "[]"] h
  show ?thesis by simp
qed

lemma foldl_insert_set:
  "set (foldl (\<lambda>acc x. if x \<in> set acc then acc else acc @ [x]) acc xs) = set acc \<union> set xs"
  by (induction xs arbitrary: acc) auto

lemma foldl_insert_distinct:
  "distinct acc \<Longrightarrow> distinct (foldl (\<lambda>acc x. if x \<in> set acc then acc else acc @ [x]) acc xs)"
  by (induction xs arbitrary: acc) auto

lemma set_Array_from_Set: "set (Array_from_Set xs) = set xs"
  unfolding Array_from_Set_def by (simp add: foldl_insert_set)

lemma distinct_Array_from_Set: "distinct (Array_from_Set xs)"
  unfolding Array_from_Set_def by (simp add: foldl_insert_distinct)

lemma set_map_filter_eq: "set (List.map_filter f xs) = {y. \<exists>x \<in> set xs. f x = Some y}"
  by (induction xs) (auto split: option.splits)

lemma nonEmpty_Some: "nonEmpty v = Some s \<longleftrightarrow> v = Some s \<and> s \<noteq> []"
  unfolding nonEmpty_def by (auto split: option.splits)

text \<open>
  What one row contributes to the options of a vendor: its own score when that is not
  empty, and otherwise the non-empty scores of its sub-criteria.
\<close>

lemma set_rowOptionValues:
  "set (rowOptionValues idx row)
   = {s. s \<noteq> [] \<and> (js_get (scores row) idx = Some s
         \<or> (nonEmpty (js_get (scores row) idx) = None
            \<and> (\<exists>subs. sub row = Some subs \<and> (\<exists>sb \<in> set subs. js_get (sub_scores sb) idx = Some s))))}"
proof (cases "nonEmpty (js_get (scores row) idx)")
  case (Some s)
  then have s: "js_get (scores row) idx = Some s" "s \<noteq> []"
    by (simp_all add: nonEmpty_Some)
  have "set (rowOptionValues idx row) = {s}"
    unfolding rowOptionValues_def Some by simp
  also have "\<dots> = {s'. s' \<noteq> [] \<and> (js_get (scores row) idx = Some s'
         \<or> (nonEmpty (js_get (scores row) idx) = None
            \<and> (\<exists>subs. sub row = Some subs \<and> (\<exists>sb \<in> set subs. js_get (sub_scores sb) idx = Some s'))))}"
    using s Some by auto
  finally show ?thesis .
next
  case None
  then have no: "\<And>s. js_get (scores row) idx = Some s \<Longrightarrow> s = []"
    unfolding nonEmpty_def by (auto split: option.splits if_splits)
  show ?thesis
  proof (cases "sub row")
    case N: None
    with None no show ?thesis unfolding rowOptionValues_def by auto
  next
    case (Some subs)
    with None no show ?thesis unfolding rowOptionValues_def
      by (auto simp: set_map_filter_eq nonEmpty_Some)
  qed
qed

text \<open>
  Claim C8, as stated, fails: a row with a score of its own contributes that score
  only. In the example data the first section has the score \<open>80%\<close> for the first
  vendor and a sub-criterion with the score \<open>70%\<close>; the options are \<open>80%\<close> and, from
  the second section, which has no score of its own, \<open>66%\<close>.
\<close>

theorem getVendorOptions_children_counterexample:
  "map opt_value (getVendorOptions exampleData 0) = [''80%'', ''66%'']
   \<and> ''70%'' \<in> specOptionValues exampleData 0
   \<and> set (map opt_value (getVendorOptions exampleData 0)) \<noteq> specOptionValues exampleData 0"
proof -
  have a: "map opt_value (getVendorOptions exampleData 0) = [''80%'', ''66%'']"
    by code_simp
  have b: "''70%'' \<in> specOptionValues exampleData 0"
    by (simp add: specOptionValues_def js_get_def exampleData_def exampleSection_def exampleSection2_def)
  have c: "''70%'' \<notin> set [''80%'', ''66%'']"
    by simp
  have "set (map opt_value (getVendorOptions exampleData 0)) \<noteq> specOptionValues exampleData 0"
    unfolding a using b c by metis
  with a b show ?thesis by (intro conjI)
qed

text \<open>
  Claim C8, amended. The option values of a vendor are, without duplicates, the
  vendor's non-empty score at every top-level node that has one, and the vendor's
  non-empty scores at the children of every node that has children and no non-empty
  score of its own for the vendor. Every option has its value as its label.
\<close>

theorem getVendorOptions_values:
  "set (map opt_value (getVendorOptions data idx))
   = {s. s \<noteq> [] \<and> (\<exists>row \<in> set data. js_get (scores row) idx = Some s
         \<or> (nonEmpty (js_get (scores row) idx) = None
            \<and> (\<exists>subs. sub row = Some subs \<and> (\<exists>sb \<in> set subs. js_get (sub_scores sb) idx = Some s))))}
   \<and> distinct (map opt_value (getVendorOptions data idx))
   \<and> map opt_label (getVendorOptions data idx) = map opt_value (getVendorOptions data idx)"
proof -
  have v: "map opt_value (getVendorOptions data idx) = Array_from_Set (concat (map (rowOptionValues idx) data))"
    and l: "map opt_label (getVendorOptions data idx) = Array_from_Set (concat (map (rowOptionValues idx) data))"
    unfolding getVendorOptions_def by (simp_all add: comp_def)
  have "set (Array_from_Set (concat (map (rowOptionValues idx) data)))
        = (\<Union>row \<in> set data. set (rowOptionValues idx row))"
    by (simp add: set_Array_from_Set)
  also have "\<dots> = {s. s \<noteq> [] \<and> (\<exists>row \<in> set data. js_get (scores row) idx = Some s
         \<or> (nonEmpty (js_get (scores row) idx) = None
            \<and> (\<exists>subs. sub row = Some subs \<and> (\<exists>sb \<in> set subs. js_get (sub_scores sb) idx = Some s))))}"
    unfolding set_rowOptionValues by blast
  finally show ?thesis
    unfolding v l by (simp add: distinct_Array_from_Set)
qed

subsection \<open>Weight cell\<close>

lemma Math_round_fifth: "Math_round (of_int n / 5) = (2 * n + 5) div 10"
proof -
  have "(of_int n / 5 + 1 / 2 :: rat) = of_int (2 * n + 5) / of_int 10"
    by simp
  then show ?thesis
    unfolding Math_round_def by (simp only: floor_divide_of_int_eq)
qed

text \<open>
  \<open>Math.round(num / 5) * 5\<close> is the multiple of five nearest to \<open>num\<close>, and rounding
  before clamping to \<open>[0, 100]\<close>, as the source does, gives what clamping before
  rounding gives.
\<close>

lemma round_to_five_nearest:
  "Math_round (of_int n / 5) * 5 mod 5 = 0 \<and> \<bar>Math_round (of_int n / 5) * 5 - n\<bar> \<le> 2"
  unfolding Math_round_fifth by presburger

lemma round_clamp_commute:
  "max 0 (min 100 (Math_round (of_int n / 5) * 5))
   = Math_round (of_int (max 0 (min 100 n)) / 5) * 5"
  unfolding Math_round_fifth by (simp add: max_def min_def) presburger

lemma clamped_multiple_of_five: "\<exists>m < 21. max 0 (min 100 (k * 5)) = 5 * int m"
proof -
  have "max 0 (min 100 (k * 5)) = 5 * int (nat (max 0 (min 20 k)))"
    by (simp add: max_def min_def)
  moreover have "nat (max 0 (min 20 k)) < 21"
    by arith
  ultimately show ?thesis by blast
qed

text \<open>
  Leaving the input field commits a normalised weight, for every content of the field:
  the empty string when the content does not parse, and otherwise the parsed number
  rounded to a multiple of five and clamped to \<open>[0, 100]\<close>, followed by a percent sign.
\<close>

lemma handleInputBlur_normalised:
  "\<exists>w. normalisedWeight w \<and> fst (handleInputBlur data rowId inputValue) = handleWeightChange data rowId w"
proof (cases "parseInt inputValue")
  case None
  then have "fst (handleInputBlur data rowId inputValue) = handleWeightChange data rowId ''''"
    unfolding handleInputBlur_def by simp
  moreover have "normalisedWeight ''''"
    unfolding normalisedWeight_def by simp
  ultimately show ?thesis by blast
next
  case (Some num)
  let ?c = "max 0 (min 100 (Math_round (of_int num / 5) * 5))"
  obtain m where m: "m < 21" "?c = 5 * int m"
    using clamped_multiple_of_five by blast
  have "fst (handleInputBlur data rowId inputValue) = handleWeightChange data rowId (show_int ?c @ ''%'')"
    unfolding handleInputBlur_def Some by (simp add: Let_def)
  moreover have "normalisedWeight (show_int ?c @ ''%'')"
    unfolding normalisedWeight_def m(2) using m(1) by auto
  ultimately show ?thesis by blast
qed

lemma handleInputBlur_value:
  "parseInt inputValue = Some num \<Longrightarrow>
   fst (handleInputBlur data rowId inputValue)
   = handleWeightChange data rowId (show_int (Math_round (of_int (max 0 (min 100 num)) / 5) * 5) @ ''%'')"
  unfolding handleInputBlur_def by (simp add: Let_def round_clamp_commute)

text \<open>
  Claim C3 holds for the blur handler and fails for the two buttons, which clamp on one
  side only and do not round. The row \<open>5.1\<close> has the weight \<open>20%\<close> and its cell shows
  \<open>20\<close>. Typing \<open>22\<close> and leaving the field commits \<open>20%\<close> again; the stored weight
  has not changed, so the effect does not run and the cell keeps \<open>22\<close>. The plus button
  then commits \<open>27%\<close>, and from \<open>21\<close> the minus button commits \<open>16%\<close>; neither is a
  normalised weight.
\<close>

theorem weight_buttons_commit_unnormalised:
  "handleInputChange ''22'' ''20'' = ''22''
   \<and> handleInputBlur [exampleSection] ''5.1'' ''22'' = ([exampleSection], ''22'')
   \<and> weightEffect ''20%'' ''20%'' ''22'' = ''22''
   \<and> map weight (fst (handlePlusClick [exampleSection] ''5.1'' ''22'')) = [''27%'']
   \<and> \<not> normalisedWeight ''27%''
   \<and> map weight (fst (handleMinusClick [exampleSection] ''5.1'' ''21'')) = [''16%'']
   \<and> \<not> normalisedWeight ''16%''"
proof -
  have c: "handleInputChange ''22'' ''20'' = ''22''"
    by code_simp
  have b: "handleInputBlur [exampleSection] ''5.1'' ''22'' = ([exampleSection], ''22'')"
    by code_simp
  have e: "weightEffect ''20%'' ''20%'' ''22'' = ''22''"
    by (simp add: weightEffect_def)
  have p: "map weight (fst (handlePlusClick [exampleSection] ''5.1'' ''22'')) = [''27%'']"
    by code_simp
  have m: "map weight (fst (handleMinusClick [exampleSection] ''5.1'' ''21'')) = [''16%'']"
    by code_simp
  have n: "\<not> normalisedWeight ''27%''" "\<not> normalisedWeight ''16%''"
    by code_simp+
  from c b e p m n show ?thesis by (intro conjI)
qed

end
